theory Spec2Isabelle
  imports
    Main
    "HOL-Library.Char_ord"
    "HOL-Library.List_Lexorder"
    "HOL-Library.AList"
    "HOL-Library.Sublist"
begin

unbundle bit_operations_syntax

section \<open>Strings of the Go standard library\<close>

text \<open>
  A Go \<^verbatim>\<open>string\<close> is a sequence of bytes, and so is an Isabelle \<^typ>\<open>string\<close>:
  \<^verbatim>\<open>len\<close> is \<^const>\<open>length\<close>, \<^verbatim>\<open>path[1]\<close> is \<^term>\<open>path ! 1\<close> behind a length
  check, \<^verbatim>\<open>path[2:]\<close> is \<^term>\<open>drop 2 path\<close>. The cut sets and the character class used
  by \<^verbatim>\<open>main.go\<close> are ASCII only, so the functions of package \<^verbatim>\<open>strings\<close> and the
  regular expression act byte by byte.
\<close>

abbreviation Backslash :: char where
  "Backslash \<equiv> CHR 0x5C"

abbreviation DoubleQuote :: char where
  "DoubleQuote \<equiv> CHR 0x22"

definition HasPrefix :: "string \<Rightarrow> string \<Rightarrow> bool" where
  "HasPrefix s pre = (length pre \<le> length s \<and> take (length pre) s = pre)"

definition HasSuffix :: "string \<Rightarrow> string \<Rightarrow> bool" where
  "HasSuffix s suf = (length suf \<le> length s \<and> drop (length s - length suf) s = suf)"

fun Contains :: "string \<Rightarrow> string \<Rightarrow> bool" where
  "Contains [] substr = (substr = [])"
| "Contains (c # s) substr = (HasPrefix (c # s) substr \<or> Contains s substr)"

definition TrimLeft :: "string \<Rightarrow> string \<Rightarrow> string" where
  "TrimLeft s cutset = dropWhile (\<lambda>c. c \<in> set cutset) s"

definition TrimRight :: "string \<Rightarrow> string \<Rightarrow> string" where
  "TrimRight s cutset = rev (dropWhile (\<lambda>c. c \<in> set cutset) (rev s))"

definition Trim :: "string \<Rightarrow> string \<Rightarrow> string" where
  "Trim s cutset = TrimRight (TrimLeft s cutset) cutset"

text \<open>\<^verbatim>\<open>strings.ReplaceAll(s, old, new)\<close> where \<^verbatim>\<open>old\<close> and \<^verbatim>\<open>new\<close> are one byte each.\<close>

definition ReplaceAll :: "string \<Rightarrow> char \<Rightarrow> char \<Rightarrow> string" where
  "ReplaceAll s old new = map (\<lambda>c. if c = old then new else c) s"

text \<open>
  The character class \<^verbatim>\<open>[<>:"|?*]\<close> of \<^verbatim>\<open>sanitizeTarPath\<close> and
  \<^verbatim>\<open>sanitizeExtractPath\<close>, and \<^verbatim>\<open>invalidChars.ReplaceAllString(path, "_")\<close>: every
  byte of the class becomes an underscore, everything else is copied.
\<close>

definition invalidChars :: "char list" where
  "invalidChars =
     [CHR ''<'', CHR ''>'', CHR '':'', DoubleQuote, CHR ''|'', CHR ''?'', CHR ''*'']"

definition ReplaceAllString :: "char list \<Rightarrow> string \<Rightarrow> char \<Rightarrow> string" where
  "ReplaceAllString cls src repl = map (\<lambda>c. if c \<in> set cls then repl else c) src"

section \<open>The host platform\<close>

text \<open>
  \<^verbatim>\<open>filepath.Separator\<close> is a constant of the platform the program was built for:
  a slash on POSIX systems, a backslash on Windows.
\<close>

datatype goos = Posix | Windows

fun Separator :: "goos \<Rightarrow> char" where
  "Separator Posix = CHR ''/''"
| "Separator Windows = Backslash"

definition FromSlash :: "goos \<Rightarrow> string \<Rightarrow> string" where
  "FromSlash os path =
     (if Separator os = CHR ''/'' then path else ReplaceAll path (CHR ''/'') (Separator os))"

definition ToSlash :: "goos \<Rightarrow> string \<Rightarrow> string" where
  "ToSlash os path =
     (if Separator os = CHR ''/'' then path else ReplaceAll path (Separator os) (CHR ''/''))"

section \<open>The path sanitizers of \<^verbatim>\<open>main.go\<close>\<close>

definition sanitizeTarPath :: "string \<Rightarrow> string" where
  "sanitizeTarPath path0 =
     (let path1 = (if length path0 \<ge> 2 \<and> path0 ! 1 = CHR '':'' then drop 2 path0 else path0);
          path2 = TrimLeft path1 [CHR ''/'', Backslash];
          path3 = ReplaceAll path2 Backslash (CHR ''/'')
      in ReplaceAllString invalidChars path3 (CHR ''_''))"

definition sanitizeExtractPath :: "goos \<Rightarrow> string \<Rightarrow> string" where
  "sanitizeExtractPath os path0 =
     (let path1 = (if length path0 \<ge> 2 \<and> path0 ! 1 = CHR '':'' then drop 2 path0 else path0);
          path2 = TrimLeft path1 [CHR ''/'', Backslash]
      in if path2 = [] \<or> Trim path2 ''.'' = [] then []
         else if Contains path2 ''..'' then []
         else let path3 = FromSlash os path2
              in if Separator os = Backslash
                 then ReplaceAllString invalidChars path3 (CHR ''_'')
                 else path3)"

section \<open>Package \<^verbatim>\<open>path/filepath\<close> on a POSIX host\<close>

text \<open>
  The file system side of the program is modelled for a POSIX host: the only separator is the
  slash and there are no volume names. \<^verbatim>\<open>filepath.Clean\<close> is modelled by its documented
  rules on path elements: empty elements and \<^verbatim>\<open>.\<close> are dropped, an inner \<^verbatim>\<open>..\<close> removes the
  element before it, a \<^verbatim>\<open>..\<close> at the start of a rooted path is dropped and one at the start
  of a relative path is kept; the empty result is \<^verbatim>\<open>.\<close>.
\<close>

text \<open>\<^verbatim>\<open>strings.Split(s, sep)\<close> for a separator of one byte.\<close>

fun splitc :: "char \<Rightarrow> string \<Rightarrow> string list" where
  "splitc sep [] = [[]]"
| "splitc sep (c # s) =
     (if c = sep then [] # splitc sep s
      else (c # hd (splitc sep s)) # tl (splitc sep s))"

text \<open>\<^verbatim>\<open>strings.Join(elems, sep)\<close> for a separator of one byte.\<close>

fun joinc :: "char \<Rightarrow> string list \<Rightarrow> string" where
  "joinc sep [] = []"
| "joinc sep [e] = e"
| "joinc sep (e # e' # es) = e @ sep # joinc sep (e' # es)"

text \<open>
  The element loop of \<^verbatim>\<open>Clean\<close>: \<open>out\<close> is the output written so far, as a stack of
  elements with the last one written on top.
\<close>

fun cleanElems :: "bool \<Rightarrow> string list \<Rightarrow> string list \<Rightarrow> string list" where
  "cleanElems rooted out [] = out"
| "cleanElems rooted out (e # es) =
     (if e = [] \<or> e = ''.'' then cleanElems rooted out es
      else if e = ''..'' then
        (if out \<noteq> [] \<and> hd out \<noteq> ''..'' then cleanElems rooted (tl out) es
         else if \<not> rooted then cleanElems rooted (''..'' # out) es
         else cleanElems rooted out es)
      else cleanElems rooted (e # out) es)"

definition Clean :: "string \<Rightarrow> string" where
  "Clean path =
     (if path = [] then ''.''
      else let rooted = (hd path = CHR ''/'');
               out = rev (cleanElems rooted [] (splitc (CHR ''/'') path));
               s = (if rooted then ''/'' else []) @ joinc (CHR ''/'') out
           in if s = [] then ''.'' else s)"

text \<open>\<^verbatim>\<open>filepath.Join\<close>: the elements from the first non-empty one on, joined and cleaned.\<close>

definition Join :: "string list \<Rightarrow> string" where
  "Join elem =
     (case dropWhile (\<lambda>e. e = []) elem of
        [] \<Rightarrow> []
      | e # es \<Rightarrow> Clean (joinc (CHR ''/'') (e # es)))"

definition Base :: "string \<Rightarrow> string" where
  "Base path =
     (if path = [] then ''.''
      else let p1 = rev (dropWhile (\<lambda>c. c = CHR ''/'') (rev path));
               p2 = rev (takeWhile (\<lambda>c. c \<noteq> CHR ''/'') (rev p1))
           in if p2 = [] then ''/'' else p2)"

definition Dir :: "string \<Rightarrow> string" where
  "Dir path = Clean (rev (dropWhile (\<lambda>c. c \<noteq> CHR ''/'') (rev path)))"

text \<open>
  \<^verbatim>\<open>filepath.Rel\<close>. The scanning loop walks both cleaned paths element by element;
  \<open>relScan\<close> is called with \<^verbatim>\<open>base[bi:]\<close> and \<^verbatim>\<open>targ[ti:]\<close> at the head of the loop and
  returns \<^verbatim>\<open>base[b0:bi]\<close>, \<^verbatim>\<open>base[b0:]\<close> and \<^verbatim>\<open>targ[t0:]\<close> as they are when the loop ends.
\<close>

function relScan :: "string \<Rightarrow> string \<Rightarrow> string \<times> string \<times> string" where
  "relScan base targ =
     (if base = [] \<or> targ = [] then ([], base, targ)
      else let be = takeWhile (\<lambda>c. c \<noteq> CHR ''/'') base;
               te = takeWhile (\<lambda>c. c \<noteq> CHR ''/'') targ
           in if te \<noteq> be then (be, base, targ)
              else relScan (drop 1 (dropWhile (\<lambda>c. c \<noteq> CHR ''/'') base))
                           (drop 1 (dropWhile (\<lambda>c. c \<noteq> CHR ''/'') targ)))"
  by pat_completeness auto
termination
proof (relation "measure (\<lambda>(base, targ). length base)")
  show "wf (measure (\<lambda>(base, targ). length base))" by simp
next
  fix base targ :: string and be te :: string
  assume "\<not> (base = [] \<or> targ = [])"
  then obtain c cs where "base = c # cs" by (cases base) auto
  then have "length (drop 1 (dropWhile (\<lambda>c. c \<noteq> CHR ''/'') base)) < length base"
    using length_dropWhile_le[of "\<lambda>c. c \<noteq> CHR ''/''" cs]
    by (auto simp: less_Suc_eq_le intro: le_trans)
  then show "((drop 1 (dropWhile (\<lambda>c. c \<noteq> CHR ''/'') base),
               drop 1 (dropWhile (\<lambda>c. c \<noteq> CHR ''/'') targ)), base, targ)
             \<in> measure (\<lambda>(base, targ). length base)"
    by simp
qed

declare relScan.simps [simp del]

datatype path_error = RelError

definition Rel :: "string \<Rightarrow> string \<Rightarrow> path_error + string" where
  "Rel basepath targpath =
     (let base = Clean basepath; targ = Clean targpath
      in if targ = base then Inr ''.''
         else let base' = (if base = ''.'' then [] else base);
                  baseSlashed = (base' \<noteq> [] \<and> hd base' = CHR ''/'');
                  targSlashed = (targ \<noteq> [] \<and> hd targ = CHR ''/'')
              in if baseSlashed \<noteq> targSlashed then Inl RelError
                 else case relScan base' targ of (be, brest, trest) \<Rightarrow>
                   if be = ''..'' then Inl RelError
                   else if brest \<noteq> [] then
                     Inr (''..'' @ concat (replicate (count_list brest (CHR ''/'')) ''/..'')
                          @ (if trest \<noteq> [] then CHR ''/'' # trest else []))
                   else Inr trest)"

section \<open>The file system\<close>

text \<open>
  The file system is a tree of regular files and directories; a directory lists each name
  once. There are no symbolic links, the process may read and write everything (permission
  bits are recorded, not enforced), and nothing else changes the tree while the program runs.
  A node carries its mode bits in the numbering of \<^verbatim>\<open>chmod\<close>; file contents are bytes.
\<close>

type_synonym bytes = string

datatype node = RegFile int bytes | Directory int "(string \<times> node) list"

datatype errno = ENOENT | ENOTDIR | EISDIR | EEXIST

text \<open>A location is the list of names from the root directory down to a node.\<close>

fun lookup :: "node \<Rightarrow> string list \<Rightarrow> node option" where
  "lookup t [] = Some t"
| "lookup (RegFile m b) (c # cs) = None"
| "lookup (Directory m es) (c # cs) =
     (case map_of es c of None \<Rightarrow> None | Some t \<Rightarrow> lookup t cs)"

text \<open>\<open>put t loc n\<close> places \<open>n\<close> at \<open>loc\<close>, whose parent must be a directory of \<open>t\<close>.\<close>

fun put :: "node \<Rightarrow> string list \<Rightarrow> node \<Rightarrow> node" where
  "put t [] n = n"
| "put (RegFile m b) (c # cs) n = RegFile m b"
| "put (Directory m es) (c # cs) n =
     (case map_of es c of
        None \<Rightarrow> if cs = [] then Directory m (AList.update c n es) else Directory m es
      | Some t \<Rightarrow> Directory m (AList.update c (put t cs n) es))"

text \<open>\<open>remove t loc\<close> deletes the node at \<open>loc\<close> with everything below it; the root
  directory itself stays, emptied.\<close>

fun remove :: "node \<Rightarrow> string list \<Rightarrow> node" where
  "remove (RegFile m b) cs = RegFile m b"
| "remove (Directory m es) [] = Directory m []"
| "remove (Directory m es) [c] = Directory m (AList.delete c es)"
| "remove (Directory m es) (c # c' # cs) =
     (case map_of es c of
        None \<Rightarrow> Directory m es
      | Some t \<Rightarrow> Directory m (AList.update c (remove t (c' # cs)) es))"

text \<open>What \<^verbatim>\<open>stat\<close> tells about a node: its kind, its mode and, for a file, its bytes.\<close>

datatype attr = IsFile int bytes | IsDir int

fun attr_of :: "node \<Rightarrow> attr" where
  "attr_of (RegFile m b) = IsFile m b"
| "attr_of (Directory m es) = IsDir m"

definition stat :: "node \<Rightarrow> string list \<Rightarrow> attr option" where
  "stat t loc = map_option attr_of (lookup t loc)"

text \<open>
  The process: its working directory as \<^verbatim>\<open>os.Getwd\<close> reports it (an absolute path, or a
  failure) and its file mode creation mask.
\<close>

record env =
  Getwd :: "string option"
  umask :: int

text \<open>
  The node a path names, found the way the kernel finds it: the path is walked element by
  element from the root directory (for a relative path, from the working directory, which
  is walked first). Before every element the place reached so far must be a directory that
  is there; an empty element and \<^verbatim>\<open>.\<close> stay in it, \<^verbatim>\<open>..\<close> goes to its parent (the root is
  its own parent), a name goes to the entry of that name. The place the last element leads
  to need not exist: the walk returns where it would be. So a path through a directory that
  is missing fails with \<^verbatim>\<open>ENOENT\<close>, a path through a regular file with \<^verbatim>\<open>ENOTDIR\<close>, also
  when only a trailing slash or a dot follows the file. The empty path names nothing.
\<close>

fun namei :: "node \<Rightarrow> string list \<Rightarrow> string list \<Rightarrow> errno + string list" where
  "namei fs cur [] = Inr cur"
| "namei fs cur (c # cs) =
     (case lookup fs cur of
        None \<Rightarrow> Inl ENOENT
      | Some (RegFile m b) \<Rightarrow> Inl ENOTDIR
      | Some (Directory m es) \<Rightarrow>
          (if c = [] \<or> c = ''.'' then namei fs cur cs
           else if c = ''..'' then namei fs (butlast cur) cs
           else namei fs (cur @ [c]) cs))"

definition locate :: "env \<Rightarrow> node \<Rightarrow> string \<Rightarrow> errno + string list" where
  "locate e fs path =
     (if path = [] then Inl ENOENT
      else if hd path = CHR ''/'' then namei fs [] (splitc (CHR ''/'') path)
      else (case Getwd e of
              None \<Rightarrow> Inl ENOENT
            | Some cwd \<Rightarrow> namei fs [] (splitc (CHR ''/'') (cwd @ ''/'' @ path))))"

text \<open>
  \<^verbatim>\<open>syscallMode\<close> of package \<^verbatim>\<open>os\<close>, applied to \<^verbatim>\<open>os.FileMode(header.Mode)\<close>: the
  conversion keeps the low 32 bits, of which the nine permission bits and the bits
  \<^verbatim>\<open>ModeSetuid\<close>, \<^verbatim>\<open>ModeSetgid\<close> and \<^verbatim>\<open>ModeSticky\<close> reach the kernel, which clears the bits of
  the mask.
\<close>

definition syscallMode :: "int \<Rightarrow> int" where
  "syscallMode perm =
     perm mod 512
     + (if (perm div 2 ^ 23) mod 2 = 1 then 2048 else 0)
     + (if (perm div 2 ^ 22) mod 2 = 1 then 1024 else 0)
     + (if (perm div 2 ^ 20) mod 2 = 1 then 512 else 0)"

definition creationMode :: "env \<Rightarrow> int \<Rightarrow> int" where
  "creationMode e perm = syscallMode perm AND NOT (umask e)"

text \<open>\<^verbatim>\<open>os.Stat\<close>: the node, or a failure.\<close>

definition Stat :: "env \<Rightarrow> node \<Rightarrow> string \<Rightarrow> node option" where
  "Stat e fs path = (case locate e fs path of Inl err \<Rightarrow> None | Inr loc \<Rightarrow> lookup fs loc)"

text \<open>
  \<^verbatim>\<open>os.Mkdir\<close>: the system call takes no notice of trailing slashes; it fails when the
  path names something already.
\<close>

definition Mkdir :: "env \<Rightarrow> node \<Rightarrow> string \<Rightarrow> int \<Rightarrow> errno + node" where
  "Mkdir e fs path perm =
     (case locate e fs (if TrimRight path ''/'' = [] then path else TrimRight path ''/'') of
        Inl err \<Rightarrow> Inl err
      | Inr loc \<Rightarrow>
          (case lookup fs loc of
             Some n \<Rightarrow> Inl EEXIST
           | None \<Rightarrow> Inr (put fs loc (Directory (creationMode e perm) []))))"

text \<open>
  \<^verbatim>\<open>os.MkdirAll\<close>: nothing to do when the path is a directory, a failure when it is a file.
  Otherwise the parent is made first: the path up to the separator in front of its last
  element (trailing separators aside), unless that is empty. Then the directory itself is
  made; when \<^verbatim>\<open>Mkdir\<close> fails the path is looked at once more.
\<close>

function MkdirAll :: "env \<Rightarrow> node \<Rightarrow> string \<Rightarrow> int \<Rightarrow> errno + node" where
  "MkdirAll e fs path perm =
     (case Stat e fs path of
        Some (Directory m es) \<Rightarrow> Inr fs
      | Some (RegFile m b) \<Rightarrow> Inl ENOTDIR
      | None \<Rightarrow>
          (case (if rev (drop 1 (dropWhile (\<lambda>c. c \<noteq> CHR ''/'')
                                   (dropWhile (\<lambda>c. c = CHR ''/'') (rev path)))) \<noteq> []
                 then MkdirAll e fs
                        (rev (drop 1 (dropWhile (\<lambda>c. c \<noteq> CHR ''/'')
                                        (dropWhile (\<lambda>c. c = CHR ''/'') (rev path))))) perm
                 else Inr fs) of
             Inl err \<Rightarrow> Inl err
           | Inr fs1 \<Rightarrow>
               (case Mkdir e fs1 path perm of
                  Inr fs2 \<Rightarrow> Inr fs2
                | Inl err \<Rightarrow>
                    (case Stat e fs1 path of
                       Some (Directory m es) \<Rightarrow> Inr fs1
                     | _ \<Rightarrow> Inl err))))"
  by pat_completeness auto
termination
proof (relation "measure (\<lambda>(e, fs, path, perm). length path)")
  show "wf (measure (\<lambda>(e, fs, path, perm). length path))" by simp
next
  fix e :: env and fs :: node and path :: string and perm :: int
  let ?rest = "dropWhile (\<lambda>c. c \<noteq> CHR ''/'') (dropWhile (\<lambda>c. c = CHR ''/'') (rev path))"
  assume a: "rev (drop 1 ?rest) \<noteq> []"
  have "?rest \<noteq> []"
  proof
    assume "?rest = []"
    then have "rev (drop 1 ?rest) = []" by (simp only: drop_Nil rev.simps)
    with a show False by simp
  qed
  then have "length (drop 1 ?rest) < length ?rest" by simp
  also have "length ?rest \<le> length (dropWhile (\<lambda>c. c = CHR ''/'') (rev path))"
    by (rule length_dropWhile_le)
  also have "\<dots> \<le> length (rev path)" by (rule length_dropWhile_le)
  finally have "length (rev (drop 1 ?rest)) < length path" by simp
  then show "((e, fs, rev (drop 1 ?rest), perm), e, fs, path, perm)
             \<in> measure (\<lambda>(e, fs, path, perm). length path)"
    by simp
qed

declare MkdirAll.simps [simp del]

text \<open>
  \<^verbatim>\<open>os.RemoveAll\<close>: the node and everything below it go; a path that names nothing, the
  empty path and a path that ends in a dot leave the tree as it is.
\<close>

definition RemoveAll :: "env \<Rightarrow> node \<Rightarrow> string \<Rightarrow> node" where
  "RemoveAll e fs path =
     (if path = ''.'' \<or> HasSuffix path ''/.'' then fs
      else (case locate e fs path of Inl err \<Rightarrow> fs | Inr loc \<Rightarrow> remove fs loc))"

text \<open>
  \<^verbatim>\<open>os.OpenFile(path, O_CREATE|O_RDWR, perm)\<close>: a missing file is created empty with the
  given mode; a file that is there is opened as it is, with its bytes and its mode.
  With \<open>trunc\<close> (the flag \<^verbatim>\<open>O_TRUNC\<close> of \<^verbatim>\<open>os.Create\<close>) its bytes are dropped. A path with a
  trailing slash can only name a directory, which cannot be opened for writing.
\<close>

definition OpenFile :: "env \<Rightarrow> node \<Rightarrow> string \<Rightarrow> bool \<Rightarrow> int \<Rightarrow> errno + node" where
  "OpenFile e fs path trunc perm =
     (if HasSuffix path ''/'' then
        (case locate e fs (if TrimRight path ''/'' = [] then path else TrimRight path ''/'') of
           Inl err \<Rightarrow> Inl err
         | Inr loc \<Rightarrow> Inl EISDIR)
      else
        (case locate e fs path of
           Inl err \<Rightarrow> Inl err
         | Inr loc \<Rightarrow>
             (case lookup fs loc of
                Some (Directory m es) \<Rightarrow> Inl EISDIR
              | Some (RegFile m b) \<Rightarrow> Inr (if trunc then put fs loc (RegFile m []) else fs)
              | None \<Rightarrow> Inr (put fs loc (RegFile (creationMode e perm) [])))))"

text \<open>Writing \<open>p\<close> through a handle just opened: the bytes go to offset 0 and
  whatever the file held beyond them stays.\<close>

definition Write :: "env \<Rightarrow> node \<Rightarrow> string \<Rightarrow> bytes \<Rightarrow> node" where
  "Write e fs path p =
     (case locate e fs path of
        Inl err \<Rightarrow> fs
      | Inr loc \<Rightarrow>
          (case lookup fs loc of
             Some (RegFile m old) \<Rightarrow> put fs loc (RegFile m (p @ drop (length p) old))
           | _ \<Rightarrow> fs))"

text \<open>
  \<^verbatim>\<open>os.Open\<close>: a handle for reading on the node the path names, be it a file or a
  directory. Reading from a directory fails.
\<close>

definition Open :: "env \<Rightarrow> node \<Rightarrow> string \<Rightarrow> node option" where
  "Open e fs path = (case locate e fs path of Inl err \<Rightarrow> None | Inr loc \<Rightarrow> lookup fs loc)"

section \<open>The container stream and the codec\<close>

text \<open>
  \<^verbatim>\<open>archive/tar\<close> and the zstd codec are libraries the program is built on; the model
  keeps what the program sees of them. A header has a name, a type flag, mode bits and a
  size. What a reader delivers is a sequence of items: an entry with its payload, an entry
  whose payload breaks off after some bytes (reading it fails), or a header that cannot be
  read. The codec turns the bytes of an archive file into such a sequence and back; it is a
  parameter of the model.
\<close>

datatype typeflag = TypeReg | TypeDir | TypeOther

record header =
  Name :: string
  Typeflag :: typeflag
  Mode :: int
  Size :: int

datatype tar_item = Entry header bytes | Truncated header bytes | Corrupt

record codec =
  NewReader :: "bytes \<Rightarrow> tar_item list option"
  NewWriter :: "int \<Rightarrow> (tar_item list \<Rightarrow> bytes) option"

section \<open>Errors\<close>

datatype error =
    FailedGetwd
  | FailedCreateOutputDirectory errno
  | FailedOpenArchive
  | FailedCreateDecoder
  | FailedReadTarHeader
  | FailedCreateDirectory errno
  | FailedCreateDirectoryAt string errno
  | FailedCreateFile string errno
  | FailedExtractFile string
  | FailedCreateOutputFile errno
  | FailedCreateEncoder
  | FailedAddToArchive string "errno + path_error"
  | FailedOutputFileStats

section \<open>\<^verbatim>\<open>decompressFile\<close>\<close>

text \<open>
  One round of the extraction loop, for an entry whose header has been read. \<open>complete\<close>
  tells whether the payload can be read to its end. The result is the file system after the
  round and either the error the function returns with or the number added to
  \<^verbatim>\<open>fileCount\<close>. The only branch that reads the payload is the one for regular files.
\<close>

definition extractEntry ::
  "env \<Rightarrow> string \<Rightarrow> node \<Rightarrow> header \<Rightarrow> bytes \<Rightarrow> bool \<Rightarrow> node \<times> (error + int)" where
  "extractEntry e fullOutputDir fs hdr payload complete =
     (let cleanName = sanitizeExtractPath Posix (Name hdr)
      in if cleanName = [] then (fs, Inr 0)
         else
           let targetPath = Join [fullOutputDir, cleanName]
           in if \<not> HasPrefix targetPath (Clean fullOutputDir @ [Separator Posix])
              then (fs, Inr 0)
              else
                (case MkdirAll e fs (Dir targetPath) 493 of
                   Inl err \<Rightarrow> (fs, Inl (FailedCreateDirectory err))
                 | Inr fs1 \<Rightarrow>
                     (case Typeflag hdr of
                        TypeDir \<Rightarrow>
                          (case MkdirAll e fs1 targetPath (Mode hdr) of
                             Inl err \<Rightarrow> (fs1, Inl (FailedCreateDirectoryAt targetPath err))
                           | Inr fs2 \<Rightarrow> (fs2, Inr 0))
                      | TypeReg \<Rightarrow>
                          (case OpenFile e fs1 targetPath False (Mode hdr) of
                             Inl err \<Rightarrow> (fs1, Inl (FailedCreateFile targetPath err))
                           | Inr fs2 \<Rightarrow>
                               (let fs3 = Write e fs2 targetPath payload
                                in if complete then (fs3, Inr 1)
                                   else (fs3, Inl (FailedExtractFile targetPath))))
                      | TypeOther \<Rightarrow> (fs1, Inr 0))))"

text \<open>
  The loop over the stream. After an entry whose payload breaks off, the next call of
  \<^verbatim>\<open>tarReader.Next\<close> fails, unless copying the payload has failed before.
\<close>

fun extractEntries ::
  "env \<Rightarrow> string \<Rightarrow> node \<Rightarrow> tar_item list \<Rightarrow> int \<Rightarrow> node \<times> (error + int \<times> string)" where
  "extractEntries e fullOutputDir fs [] fileCount = (fs, Inr (fileCount, fullOutputDir))"
| "extractEntries e fullOutputDir fs (Corrupt # rest) fileCount = (fs, Inl FailedReadTarHeader)"
| "extractEntries e fullOutputDir fs (Entry hdr payload # rest) fileCount =
     (case extractEntry e fullOutputDir fs hdr payload True of
        (fs', Inl err) \<Rightarrow> (fs', Inl err)
      | (fs', Inr k) \<Rightarrow> extractEntries e fullOutputDir fs' rest (fileCount + k))"
| "extractEntries e fullOutputDir fs (Truncated hdr payload # rest) fileCount =
     (case extractEntry e fullOutputDir fs hdr payload False of
        (fs', Inl err) \<Rightarrow> (fs', Inl err)
      | (fs', Inr k) \<Rightarrow> (fs', Inl FailedReadTarHeader))"

text \<open>
  The archive is opened before the decoder and the tar reader are set up on it; neither
  reads anything until the loop asks for the first header. So an archive path that names a
  directory gets past \<^verbatim>\<open>os.Open\<close> and \<^verbatim>\<open>zstd.NewReader\<close>, and the run fails at the first
  \<^verbatim>\<open>tarReader.Next\<close>.
\<close>

definition decompressFile ::
  "env \<Rightarrow> codec \<Rightarrow> node \<Rightarrow> string \<Rightarrow> string \<Rightarrow> node \<times> (error + int \<times> string)" where
  "decompressFile e cdc fs archiveFile outputDir =
     (case Getwd e of
        None \<Rightarrow> (fs, Inl FailedGetwd)
      | Some cwd \<Rightarrow>
          (let fullOutputDir = Join [cwd, outputDir];
               fs1 = (case Stat e fs fullOutputDir of
                        Some n \<Rightarrow> RemoveAll e fs fullOutputDir
                      | None \<Rightarrow> fs)
           in case MkdirAll e fs1 fullOutputDir 493 of
                Inl err \<Rightarrow> (fs1, Inl (FailedCreateOutputDirectory err))
              | Inr fs2 \<Rightarrow>
                  (case Open e fs2 archiveFile of
                     None \<Rightarrow> (fs2, Inl FailedOpenArchive)
                   | Some (Directory m es) \<Rightarrow> (fs2, Inl FailedReadTarHeader)
                   | Some (RegFile m content) \<Rightarrow>
                       (case NewReader cdc content of
                          None \<Rightarrow> (fs2, Inl FailedCreateDecoder)
                        | Some items \<Rightarrow> extractEntries e fullOutputDir fs2 items 0))))"

section \<open>\<^verbatim>\<open>addToTar\<close> and \<^verbatim>\<open>compressFiles\<close>\<close>

text \<open>
  \<^verbatim>\<open>filepath.Walk\<close>: the callback is called on the root and then, for a directory, on
  everything below it, the names of each directory in the order of \<^verbatim>\<open>sort.Strings\<close>
  (bytewise). The path handed to the callback is the root as it was given and, below it,
  \<^verbatim>\<open>Join(path, name)\<close>. The state of the callback is threaded through; the walk stops at
  the first error.
\<close>

fun walk ::
  "string \<Rightarrow> node \<Rightarrow> (string \<Rightarrow> node \<Rightarrow> 's \<Rightarrow> 's \<times> 'x option) \<Rightarrow> 's \<Rightarrow> 's \<times> 'x option" where
  "walk path (RegFile m b) fn s = fn path (RegFile m b) s"
| "walk path (Directory m es) fn s =
     (case fn path (Directory m es) s of
        (s1, Some err) \<Rightarrow> (s1, Some err)
      | (s1, None) \<Rightarrow>
          fold (\<lambda>entry r.
                  case r of
                    (s', Some err) \<Rightarrow> (s', Some err)
                  | (s', None) \<Rightarrow> walk (Join [path, fst entry]) (snd entry) fn s')
               (sort_key fst es) (s1, None))"

text \<open>\<^verbatim>\<open>tar.FileInfoHeader\<close>, as far as the program keeps its result: the name is
  overwritten by the caller.\<close>

fun FileInfoHeader :: "string \<Rightarrow> node \<Rightarrow> header" where
  "FileInfoHeader name (RegFile m b) =
     \<lparr>Name = name, Typeflag = TypeReg, Mode = m, Size = int (length b)\<rparr>"
| "FileInfoHeader name (Directory m es) =
     \<lparr>Name = name @ ''/'', Typeflag = TypeDir, Mode = m, Size = 0\<rparr>"

text \<open>
  The callback of \<^verbatim>\<open>addToTar\<close>. Its state is the stream written to the tar writer so far
  and \<^verbatim>\<open>totalSize\<close>.
\<close>

definition addEntry ::
  "string \<Rightarrow> string \<Rightarrow> node \<Rightarrow> tar_item list \<times> int
     \<Rightarrow> (tar_item list \<times> int) \<times> (errno + path_error) option" where
  "addEntry filePath path info s =
     (let header0 = FileInfoHeader (Base path) info;
          named = (if filePath \<noteq> path
                   then (case Rel (Dir filePath) path of
                           Inl err \<Rightarrow> Inl err
                         | Inr relPath \<Rightarrow> Inr (Join [Base filePath, relPath]))
                   else Inr path)
      in case named of
           Inl err \<Rightarrow> (s, Some (Inr err))
         | Inr name \<Rightarrow>
             (let header1 = header0\<lparr>Name := sanitizeTarPath (ToSlash Posix name)\<rparr>
              in case info of
                   Directory m es \<Rightarrow> ((fst s @ [Entry header1 []], snd s), None)
                 | RegFile m b \<Rightarrow> ((fst s @ [Entry header1 b], snd s + int (length b)), None)))"

definition addToTar ::
  "env \<Rightarrow> node \<Rightarrow> string \<Rightarrow> tar_item list \<times> int
     \<Rightarrow> (tar_item list \<times> int) \<times> (errno + path_error) option" where
  "addToTar e fs filePath s =
     (case Stat e fs filePath of
        None \<Rightarrow> (s, Some (Inl ENOENT))
      | Some info \<Rightarrow> walk filePath info (addEntry filePath) s)"

text \<open>The loop of \<^verbatim>\<open>compressFiles\<close> over the sources.\<close>

fun addFiles ::
  "env \<Rightarrow> node \<Rightarrow> string list \<Rightarrow> tar_item list \<times> int
     \<Rightarrow> (tar_item list \<times> int) \<times> error option" where
  "addFiles e fs [] s = (s, None)"
| "addFiles e fs (file # files) s =
     (case addToTar e fs file s of
        (s1, Some err) \<Rightarrow> (s1, Some (FailedAddToArchive file err))
      | (s1, None) \<Rightarrow> addFiles e fs files s1)"

text \<open>
  Of \<^verbatim>\<open>CompressionStats\<close> the model keeps the original size and the output file; the
  compressed size, the ratio (a floating point number) and the duration are not modelled.
  The output file is created first and holds the encoding of the stream when the function
  returns; the sources are read while it is still empty.
\<close>

record CompressionStats =
  OriginalSize :: int
  OutputFile :: string

definition compressFiles ::
  "env \<Rightarrow> codec \<Rightarrow> node \<Rightarrow> string list \<Rightarrow> string \<Rightarrow> int \<Rightarrow> node \<times> (error + CompressionStats)" where
  "compressFiles e cdc fs files outputFile level =
     (case OpenFile e fs outputFile True 438 of
        Inl err \<Rightarrow> (fs, Inl (FailedCreateOutputFile err))
      | Inr fs1 \<Rightarrow>
          (case NewWriter cdc level of
             None \<Rightarrow> (fs1, Inl FailedCreateEncoder)
           | Some encode \<Rightarrow>
               (case addFiles e fs1 files ([], 0) of
                  ((items, totalSize), Some err) \<Rightarrow>
                    (Write e fs1 outputFile (encode items), Inl err)
                | ((items, totalSize), None) \<Rightarrow>
                    (case Stat e fs1 outputFile of
                       None \<Rightarrow> (Write e fs1 outputFile (encode items), Inl FailedOutputFileStats)
                     | Some n \<Rightarrow>
                         (Write e fs1 outputFile (encode items),
                          Inr \<lparr>OriginalSize = totalSize, OutputFile = outputFile\<rparr>)))))"

section \<open>\<^verbatim>\<open>handleCompress\<close>\<close>

record CompressRequest =
  Files :: "string list"
  Output :: string
  Level :: int

datatype message =
    NoFilesSelected
  | InvalidRequestFormat
  | CompressionFailed error
  | CompressionCompleted

datatype response =
    HttpError nat string
  | Response bool message "CompressionStats option"

text \<open>\<^verbatim>\<open>filepath.Ext\<close> and \<^verbatim>\<open>strings.TrimSuffix\<close>.\<close>

definition Ext :: "string \<Rightarrow> string" where
  "Ext path =
     (let last_elem = rev (takeWhile (\<lambda>c. c \<noteq> CHR ''/'') (rev path))
      in if CHR ''.'' \<in> set last_elem
         then CHR ''.'' # rev (takeWhile (\<lambda>c. c \<noteq> CHR ''.'') (rev last_elem))
         else [])"

definition TrimSuffix :: "string \<Rightarrow> string \<Rightarrow> string" where
  "TrimSuffix s suf = (if HasSuffix s suf then take (length s - length suf) s else s)"

text \<open>
  The handler, for a request with method \<open>method\<close> whose body decodes to \<open>body\<close>
  (\<open>None\<close> when decoding the JSON fails). The result is the file system afterwards and the
  response sent.
\<close>

definition handleCompress ::
  "env \<Rightarrow> codec \<Rightarrow> node \<Rightarrow> string \<Rightarrow> CompressRequest option \<Rightarrow> node \<times> response" where
  "handleCompress e cdc fs method body =
     (if method \<noteq> ''POST'' then (fs, HttpError 405 ''Method not allowed'')
      else case body of
        None \<Rightarrow> (fs, Response False InvalidRequestFormat None)
      | Some req \<Rightarrow>
          if length (Files req) = 0 then (fs, Response False NoFilesSelected None)
          else
            (let output1 =
                   (if Output req = [] then
                      (if length (Files req) = 1 then
                         (let baseName = Base (Files req ! 0);
                              baseName' = (if Contains baseName ''.''
                                           then TrimSuffix baseName (Ext baseName)
                                           else baseName)
                          in baseName' @ ''.zst'')
                       else ''archive.zst'')
                    else Output req);
                 output2 = (if \<not> HasSuffix output1 ''.zst'' then output1 @ ''.zst'' else output1);
                 level = (if Level req < 1 \<or> Level req > 19 then 3 else Level req)
             in case compressFiles e cdc fs (Files req) output2 level of
                  (fs', Inl err) \<Rightarrow> (fs', Response False (CompressionFailed err) None)
                | (fs', Inr stats) \<Rightarrow> (fs', Response True CompressionCompleted (Some stats))))"

section \<open>Notions used to state the properties\<close>

text \<open>A name a directory can list: not empty, not \<^verbatim>\<open>.\<close> or \<^verbatim>\<open>..\<close>, without a slash.\<close>

definition validName :: "string \<Rightarrow> bool" where
  "validName n = (n \<noteq> [] \<and> n \<noteq> ''.'' \<and> n \<noteq> ''..'' \<and> CHR ''/'' \<notin> set n)"

text \<open>
  An entry is accepted when it gets past both guards of the loop: the sanitizer returns a
  name, and the path joined from the output directory and that name begins with the cleaned
  output directory and a separator.
\<close>

definition accepted :: "string \<Rightarrow> header \<Rightarrow> bool" where
  "accepted fullOutputDir hdr =
     (sanitizeExtractPath Posix (Name hdr) \<noteq> []
      \<and> HasPrefix (Join [fullOutputDir, sanitizeExtractPath Posix (Name hdr)])
            (Clean fullOutputDir @ [Separator Posix]))"

text \<open>
  The location of an absolute path, and the path that renders a location: a slash and the
  names joined by slashes.
\<close>

definition locationOf :: "string \<Rightarrow> string list" where
  "locationOf path = rev (cleanElems True [] (splitc (CHR ''/'') path))"

definition pathOf :: "string list \<Rightarrow> string" where
  "pathOf loc = CHR ''/'' # joinc (CHR ''/'') loc"

text \<open>
  What \<^verbatim>\<open>Mkdir\<close> and \<^verbatim>\<open>MkdirAll\<close> do, told on locations: on the path of a location they
  come to the same (lemma \<open>MkdirAll_pathOf\<close>).
\<close>

definition mkdir :: "env \<Rightarrow> node \<Rightarrow> string list \<Rightarrow> int \<Rightarrow> errno + node" where
  "mkdir e fs loc perm =
     (if loc = [] then Inl EEXIST
      else (case lookup fs (butlast loc) of
              None \<Rightarrow> Inl ENOENT
            | Some (RegFile m b) \<Rightarrow> Inl ENOTDIR
            | Some (Directory m es) \<Rightarrow>
                (case lookup fs loc of
                   Some n \<Rightarrow> Inl EEXIST
                 | None \<Rightarrow> Inr (put fs loc (Directory (creationMode e perm) [])))))"

function mkdirAll :: "env \<Rightarrow> node \<Rightarrow> string list \<Rightarrow> int \<Rightarrow> errno + node" where
  "mkdirAll e fs loc perm =
     (case lookup fs loc of
        Some (Directory m es) \<Rightarrow> Inr fs
      | Some (RegFile m b) \<Rightarrow> Inl ENOTDIR
      | None \<Rightarrow>
          (case (if butlast loc \<noteq> [] then mkdirAll e fs (butlast loc) perm else Inr fs) of
             Inl err \<Rightarrow> Inl err
           | Inr fs1 \<Rightarrow>
               (case mkdir e fs1 loc perm of
                  Inr fs2 \<Rightarrow> Inr fs2
                | Inl err \<Rightarrow>
                    (case lookup fs1 loc of
                       Some (Directory m es) \<Rightarrow> Inr fs1
                     | _ \<Rightarrow> Inl err))))"
  by pat_completeness auto
termination
proof (relation "measure (\<lambda>(e, fs, loc, perm). length loc)")
  show "wf (measure (\<lambda>(e, fs, loc, perm). length loc))" by simp
next
  fix e :: env and fs :: node and loc :: "string list" and perm :: int
  assume "butlast loc \<noteq> []"
  then have "loc \<noteq> []" by auto
  then show "((e, fs, butlast loc, perm), e, fs, loc, perm)
             \<in> measure (\<lambda>(e, fs, loc, perm). length loc)"
    by simp
qed

declare mkdirAll.simps [simp del]

text \<open>
  Two states of the file system agree outside \<open>root\<close> when \<^verbatim>\<open>stat\<close> gives the same answer
  in both at every location that is not strictly below \<open>root\<close>.
\<close>

definition unchangedOutside :: "string list \<Rightarrow> node \<Rightarrow> node \<Rightarrow> bool" where
  "unchangedOutside root fs fs' = (\<forall>q. \<not> strict_prefix root q \<longrightarrow> stat fs' q = stat fs q)"

text \<open>The location of \<^verbatim>\<open>targetPath\<close>, the path an entry is written to.\<close>

definition targetLocation :: "string \<Rightarrow> header \<Rightarrow> string list" where
  "targetLocation fullOutputDir hdr =
     locationOf (Join [fullOutputDir, sanitizeExtractPath Posix (Name hdr)])"

text \<open>
  An item of the stream writes to a location when it is a regular entry that is accepted
  and has that location for its target; these are the entries the loop counts.
\<close>

definition writes :: "string \<Rightarrow> string list \<Rightarrow> tar_item \<Rightarrow> bool" where
  "writes fullOutputDir loc item =
     (case item of
        Entry hdr payload \<Rightarrow>
          accepted fullOutputDir hdr \<and> Typeflag hdr = TypeReg
          \<and> targetLocation fullOutputDir hdr = loc
      | _ \<Rightarrow> False)"

definition counted :: "string \<Rightarrow> tar_item \<Rightarrow> bool" where
  "counted fullOutputDir item =
     (case item of
        Entry hdr payload \<Rightarrow> accepted fullOutputDir hdr \<and> Typeflag hdr = TypeReg
      | _ \<Rightarrow> False)"

text \<open>
  A plain name is a name both sanitizers leave as it is: a valid name without a backslash,
  without a byte of the class \<^verbatim>\<open>[<>:"|?*]\<close> and without \<^verbatim>\<open>..\<close> inside.
\<close>

definition plainName :: "string \<Rightarrow> bool" where
  "plainName n =
     (validName n \<and> Backslash \<notin> set n \<and> set n \<inter> set invalidChars = {}
      \<and> \<not> Contains n ''..'')"

text \<open>
  A plain source is a plain name that names, from the working directory, a regular file or
  an empty directory.
\<close>

definition plainSource :: "env \<Rightarrow> node \<Rightarrow> string \<Rightarrow> bool" where
  "plainSource e fs n =
     (plainName n
      \<and> (case Stat e fs n of
            Some (RegFile m b) \<Rightarrow> True
          | Some (Directory m es) \<Rightarrow> es = []
          | None \<Rightarrow> False))"

text \<open>What a round trip is expected to leave under the destination root for a source
  node: the same kind, the same bytes, and the mode with the bits of the mask cleared.\<close>

fun unpacked :: "env \<Rightarrow> node \<Rightarrow> attr" where
  "unpacked e (RegFile m b) = IsFile (creationMode e m) b"
| "unpacked e (Directory m es) = IsDir (creationMode e m)"

fun regularCount :: "node option list \<Rightarrow> int" where
  "regularCount [] = 0"
| "regularCount (Some (RegFile m b) # ns) = 1 + regularCount ns"
| "regularCount (n # ns) = regularCount ns"

text \<open>The entry \<^verbatim>\<open>addToTar\<close> is expected to write for a source node under a given name.\<close>

fun packed :: "string \<Rightarrow> node \<Rightarrow> tar_item" where
  "packed n (RegFile m b) =
     Entry \<lparr>Name = n, Typeflag = TypeReg, Mode = m, Size = int (length b)\<rparr> b"
| "packed n (Directory m es) =
     Entry \<lparr>Name = n, Typeflag = TypeDir, Mode = m, Size = 0\<rparr> []"

fun payloadSize :: "node \<Rightarrow> int" where
  "payloadSize (RegFile m b) = int (length b)"
| "payloadSize (Directory m es) = 0"

section \<open>Example inputs\<close>

text \<open>
  A process in the working directory \<^verbatim>\<open>/w\<close> with mask \<^verbatim>\<open>022\<close>; a file system with a
  file \<^verbatim>\<open>/etc/passwd\<close>, an archive \<^verbatim>\<open>/w/a.zst\<close>, a directory \<^verbatim>\<open>/w/d\<close> holding a file
  \<^verbatim>\<open>x\<close> and an empty directory \<^verbatim>\<open>e\<close>, files \<^verbatim>\<open>/w/f.txt\<close> and \<^verbatim>\<open>/w/a?b\<close> and an empty
  directory \<^verbatim>\<open>/w/empty\<close>; a codec whose reader delivers a given stream; entries for
  a regular file and for a directory; the streams \<^verbatim>\<open>addToTar\<close> writes for two source
  lists.
\<close>

definition exampleEnv :: env where
  "exampleEnv = \<lparr>Getwd = Some ''/w'', umask = 18\<rparr>"

definition exampleFs :: node where
  "exampleFs =
     Directory 493
       [(''etc'', Directory 493 [(''passwd'', RegFile 420 ''secret'')]),
        (''w'', Directory 493
           [(''a.zst'', RegFile 420 ''Z''),
            (''d'', Directory 493 [(''x'', RegFile 420 ''hello''), (''e'', Directory 448 [])]),
            (''f.txt'', RegFile 384 ''data''),
            (''a?b'', RegFile 420 ''query''),
            (''empty'', Directory 448 [])])]"

definition exampleCodec :: "tar_item list \<Rightarrow> codec" where
  "exampleCodec items = \<lparr>NewReader = (\<lambda>b. Some items), NewWriter = (\<lambda>level. Some (\<lambda>s. ''Z''))\<rparr>"

definition regular :: "string \<Rightarrow> int \<Rightarrow> bytes \<Rightarrow> tar_item" where
  "regular name mode payload =
     Entry \<lparr>Name = name, Typeflag = TypeReg, Mode = mode, Size = int (length payload)\<rparr> payload"

definition directory :: "string \<Rightarrow> int \<Rightarrow> tar_item" where
  "directory name mode =
     Entry \<lparr>Name = name, Typeflag = TypeDir, Mode = mode, Size = 0\<rparr> []"

definition plainStream :: "tar_item list" where
  "plainStream = map (\<lambda>n. packed n (the (Stat exampleEnv exampleFs n))) [''f.txt'', ''empty'']"

definition queryStream :: "tar_item list" where
  "queryStream = fst (fst (addFiles exampleEnv exampleFs [''a?b''] ([], 0)))"


section \<open>Facts about the string functions\<close>

lemma HasPrefix_iff: "HasPrefix s pre = (\<exists>t. s = pre @ t)"
  unfolding HasPrefix_def
  by (metis append_eq_conv_conj append_take_drop_id le_add1 length_append)

lemma Contains_iff: "Contains s sub = (\<exists>a b. s = a @ sub @ b)"
proof (induction s)
  case Nil
  then show ?case by auto
next
  case (Cons c s)
  show ?case
  proof
    assume "Contains (c # s) sub"
    then consider "HasPrefix (c # s) sub" | "Contains s sub" by auto
    then show "\<exists>a b. c # s = a @ sub @ b"
    proof cases
      case 1
      then obtain t where "c # s = sub @ t" by (auto simp: HasPrefix_iff)
      then have "c # s = [] @ sub @ t" by simp
      then show ?thesis by blast
    next
      case 2
      then obtain a b where "s = a @ sub @ b" using Cons.IH by auto
      then have "c # s = (c # a) @ sub @ b" by simp
      then show ?thesis by blast
    qed
  next
    assume "\<exists>a b. c # s = a @ sub @ b"
    then obtain a b where ab: "c # s = a @ sub @ b" by auto
    show "Contains (c # s) sub"
    proof (cases a)
      case Nil
      then have "HasPrefix (c # s) sub" using ab by (auto simp: HasPrefix_iff)
      then show ?thesis by simp
    next
      case (Cons x a')
      then have "s = a' @ sub @ b" using ab by simp
      then have "Contains s sub" using Cons.IH by blast
      then show ?thesis by simp
    qed
  qed
qed

lemma Contains_dotdot_Cons:
  "Contains (c # s) ''..'' = ((c = CHR ''.'' \<and> (\<exists>t. s = CHR ''.'' # t)) \<or> Contains s ''..'')"
  by (auto simp: HasPrefix_iff)

lemma Contains_dotdot_map:
  assumes "\<And>c. (f c = CHR ''.'') = (c = CHR ''.'')"
  shows "Contains (map f s) ''..'' = Contains s ''..''"
proof (induction s)
  case Nil
  then show ?case by simp
next
  case (Cons c s)
  have "(\<exists>t. map f s = CHR ''.'' # t) = (\<exists>t. s = CHR ''.'' # t)"
    using assms by (cases s) auto
  then show ?case
    using Cons assms by (simp only: list.map Contains_dotdot_Cons)
qed

section \<open>Facts about the inbound sanitizer\<close>

lemma sanitizeExtractPath_nonempty:
  fixes os p
  defines "q \<equiv> TrimLeft (if 2 \<le> length p \<and> p ! 1 = CHR '':'' then drop 2 p else p) [CHR ''/'', Backslash]"
  assumes ne: "sanitizeExtractPath os p \<noteq> []"
  shows "q \<noteq> []" and "hd q \<noteq> CHR ''/''" and "hd q \<noteq> Backslash"
    and "\<not> Contains q ''..''" and "Trim q ''.'' \<noteq> []"
    and "sanitizeExtractPath os p =
           (case os of Posix \<Rightarrow> q
            | Windows \<Rightarrow> ReplaceAllString invalidChars (ReplaceAll q (CHR ''/'') Backslash) (CHR ''_''))"
proof -
  show q: "q \<noteq> []"
    using ne unfolding sanitizeExtractPath_def q_def by (auto simp: Let_def split: if_splits)
  have "\<not> (hd q \<in> set [CHR ''/'', Backslash])"
    using q unfolding q_def TrimLeft_def by (rule hd_dropWhile)
  then show "hd q \<noteq> CHR ''/''" and "hd q \<noteq> Backslash" by auto
  show "\<not> Contains q ''..''"
    using ne unfolding sanitizeExtractPath_def q_def by (auto simp: Let_def split: if_splits)
  show "Trim q ''.'' \<noteq> []"
    using ne unfolding sanitizeExtractPath_def q_def by (auto simp: Let_def split: if_splits)
  show "sanitizeExtractPath os p =
           (case os of Posix \<Rightarrow> q
            | Windows \<Rightarrow> ReplaceAllString invalidChars (ReplaceAll q (CHR ''/'') Backslash) (CHR ''_''))"
    using ne unfolding sanitizeExtractPath_def q_def
    by (cases os) (auto simp: Let_def FromSlash_def split: if_splits)
qed

lemma Contains_dotdot_ReplaceAll:
  "old \<noteq> CHR ''.'' \<Longrightarrow> new \<noteq> CHR ''.'' \<Longrightarrow>
   Contains (ReplaceAll s old new) ''..'' = Contains s ''..''"
  unfolding ReplaceAll_def by (rule Contains_dotdot_map) auto

lemma Contains_dotdot_ReplaceAllString:
  "CHR ''.'' \<notin> set cls \<Longrightarrow> repl \<noteq> CHR ''.'' \<Longrightarrow>
   Contains (ReplaceAllString cls s repl) ''..'' = Contains s ''..''"
  unfolding ReplaceAllString_def by (rule Contains_dotdot_map) auto

lemma sanitizeExtractPath_no_dotdot:
  "\<not> Contains (sanitizeExtractPath os p) ''..''"
proof (cases "sanitizeExtractPath os p = []")
  case True
  then show ?thesis by simp
next
  case False
  note f = sanitizeExtractPath_nonempty[OF False]
  show ?thesis
    using f(4) unfolding f(6)
    by (cases os)
       (simp_all add: Contains_dotdot_ReplaceAll Contains_dotdot_ReplaceAllString invalidChars_def)
qed

lemma sanitizeExtractPath_hd:
  assumes "sanitizeExtractPath os p \<noteq> []"
  shows "hd (sanitizeExtractPath os p) \<noteq> CHR ''/'' \<and> hd (sanitizeExtractPath os p) \<noteq> Backslash"
proof -
  note f = sanitizeExtractPath_nonempty[OF assms]
  obtain c t where q: "TrimLeft (if 2 \<le> length p \<and> p ! 1 = CHR '':'' then drop 2 p else p) [CHR ''/'', Backslash] = c # t"
    using f(1) by (cases "TrimLeft (if 2 \<le> length p \<and> p ! 1 = CHR '':'' then drop 2 p else p) [CHR ''/'', Backslash]") auto
  show ?thesis
    using f(2,3) unfolding f(6) q
    by (cases os) (auto simp: ReplaceAll_def ReplaceAllString_def)
qed

lemma sanitizeExtractPath_Windows_chars:
  "c \<in> set (sanitizeExtractPath Windows p) \<Longrightarrow> c \<notin> set invalidChars \<and> c \<noteq> CHR ''/''"
proof -
  assume c: "c \<in> set (sanitizeExtractPath Windows p)"
  then have ne: "sanitizeExtractPath Windows p \<noteq> []" by auto
  note f = sanitizeExtractPath_nonempty[OF ne]
  show ?thesis
    using c unfolding f(6)
    by (auto simp: ReplaceAll_def ReplaceAllString_def invalidChars_def)
qed

lemma TrimLeft_id: "s \<noteq> [] \<Longrightarrow> hd s \<notin> set cutset \<Longrightarrow> TrimLeft s cutset = s"
  unfolding TrimLeft_def by (cases s) auto

section \<open>Facts about paths and locations\<close>

lemma splitc_nonempty: "splitc sep s \<noteq> []"
  by (induction s) auto

lemma splitc_append: "splitc sep (a @ sep # b) = splitc sep a @ splitc sep b"
  by (induction a) (auto simp: splitc_nonempty)

lemma splitc_no_sep: "sep \<notin> set s \<Longrightarrow> splitc sep s = [s]"
  by (induction s) auto

lemma splitc_elems_no_sep: "x \<in> set (splitc sep s) \<Longrightarrow> sep \<notin> set x"
proof (induction s arbitrary: x)
  case Nil
  then show ?case by simp
next
  case (Cons c s)
  obtain y ys where ys: "splitc sep s = y # ys"
    using splitc_nonempty[of sep s] by (cases "splitc sep s") auto
  show ?case
    using Cons ys by (auto split: if_splits)
qed

lemma joinc_Cons: "es \<noteq> [] \<Longrightarrow> joinc sep (x # es) = x @ sep # joinc sep es"
  by (cases es) auto

lemma joinc_snoc: "es \<noteq> [] \<Longrightarrow> joinc sep (es @ [x]) = joinc sep es @ sep # x"
  by (induction sep es rule: joinc.induct) auto

lemma joinc_append:
  "xs \<noteq> [] \<Longrightarrow> ys \<noteq> [] \<Longrightarrow> joinc sep (xs @ ys) = joinc sep xs @ sep # joinc sep ys"
  by (induction sep xs rule: joinc.induct) (auto simp: joinc_Cons)

lemma splitc_joinc:
  "xs \<noteq> [] \<Longrightarrow> \<forall>x \<in> set xs. sep \<notin> set x \<Longrightarrow> splitc sep (joinc sep xs) = xs"
proof (induction sep xs rule: joinc.induct)
  case (1 sep)
  then show ?case by simp
next
  case (2 sep e)
  then show ?case by (simp add: splitc_no_sep)
next
  case (3 sep e e' es)
  then show ?case by (simp add: splitc_append splitc_no_sep)
qed

lemma cleanElems_append:
  "cleanElems r out (es @ fs) = cleanElems r (cleanElems r out es) fs"
  by (induction es arbitrary: out) auto

lemma cleanElems_valid: "\<forall>x \<in> set es. validName x \<Longrightarrow> cleanElems r out es = rev es @ out"
  by (induction es arbitrary: out) (auto simp: validName_def)

lemma cleanElems_no_dotdot:
  "''..'' \<notin> set es \<Longrightarrow>
   cleanElems r out es = rev (filter (\<lambda>x. x \<noteq> [] \<and> x \<noteq> ''.'') es) @ out"
  by (induction es arbitrary: out) auto

lemma cleanElems_rooted_valid:
  "\<forall>x \<in> set out. validName x \<Longrightarrow> \<forall>x \<in> set es. CHR ''/'' \<notin> set x \<Longrightarrow>
   \<forall>x \<in> set (cleanElems True out es). validName x"
proof (induction es arbitrary: out)
  case Nil
  then show ?case by simp
next
  case (Cons x es)
  have tl: "\<forall>x \<in> set (tl out). validName x"
    using Cons.prems(1) by (cases out) auto
  have push: "x \<noteq> [] \<Longrightarrow> x \<noteq> ''.'' \<Longrightarrow> x \<noteq> ''..'' \<Longrightarrow> \<forall>y \<in> set (x # out). validName y"
    using Cons.prems by (auto simp: validName_def)
  show ?case
    using Cons.IH[OF Cons.prems(1)] Cons.IH[OF tl] Cons.IH[OF push] Cons.prems(2)
    by auto
qed

lemma locationOf_valid: "\<forall>x \<in> set (locationOf p). validName x"
  unfolding locationOf_def
  using cleanElems_rooted_valid[of "[]" "splitc (CHR ''/'') p"] splitc_elems_no_sep
  by fastforce

lemma Clean_rooted:
  "p \<noteq> [] \<Longrightarrow> hd p = CHR ''/'' \<Longrightarrow> Clean p = CHR ''/'' # joinc (CHR ''/'') (locationOf p)"
  by (simp add: Clean_def locationOf_def Let_def)

lemma locationOf_abs:
  assumes "\<forall>x \<in> set xs. validName x"
  shows "locationOf (CHR ''/'' # joinc (CHR ''/'') xs) = xs"
proof (cases "xs = []")
  case True
  then show ?thesis by (simp add: locationOf_def)
next
  case False
  have "splitc (CHR ''/'') (joinc (CHR ''/'') xs) = xs"
    using False assms by (intro splitc_joinc) (auto simp: validName_def)
  then show ?thesis
    using assms by (simp add: locationOf_def cleanElems_valid)
qed

lemma locationOf_Clean:
  "p \<noteq> [] \<Longrightarrow> hd p = CHR ''/'' \<Longrightarrow> locationOf (Clean p) = locationOf p"
  by (simp add: Clean_rooted locationOf_abs locationOf_valid)

lemma splitc_parts:
  "(\<exists>b. s = hd (splitc sep s) @ b) \<and> (\<forall>x \<in> set (tl (splitc sep s)). \<exists>a b. s = a @ x @ b)"
proof (induction s)
  case Nil
  then show ?case by simp
next
  case (Cons c s)
  obtain y ys where ys: "splitc sep s = y # ys"
    using splitc_nonempty[of sep s] by (cases "splitc sep s") auto
  have IH1: "\<exists>b. s = y @ b" and IH2: "\<forall>x \<in> set ys. \<exists>a b. s = a @ x @ b"
    using Cons ys by simp_all
  obtain b where b: "s = y @ b" using IH1 by blast
  have tl: "\<exists>a b. c # s = a @ x @ b" if "x \<in> set ys" for x
  proof -
    from IH2 that have "\<exists>a b. s = a @ x @ b" by (rule bspec)
    then obtain a b where "s = a @ x @ b" by (elim exE)
    then have "c # s = (c # a) @ x @ b" by simp
    then show ?thesis by (intro exI)
  qed
  have hd: "\<exists>a b. c # s = a @ y @ b"
  proof -
    have "c # s = [c] @ y @ b" using b by simp
    then show ?thesis by (intro exI)
  qed
  have pre: "\<exists>b. c # s = (c # y) @ b"
    using b by simp
  show ?case
  proof (cases "c = sep")
    case True
    have "splitc sep (c # s) = [] # y # ys" using True ys by simp
    then show ?thesis using tl hd by simp
  next
    case False
    have "splitc sep (c # s) = (c # y) # ys" using False ys by simp
    then show ?thesis using tl pre by simp
  qed
qed

lemma splitc_elem_substring:
  assumes "x \<in> set (splitc sep s)"
  shows "\<exists>a b. s = a @ x @ b"
proof -
  obtain y ys where ys: "splitc sep s = y # ys"
    using splitc_nonempty[of sep s] by (cases "splitc sep s") auto
  from assms ys have "x = y \<or> x \<in> set ys" by auto
  then show ?thesis
  proof
    assume "x = y"
    then obtain b where "s = x @ b" using splitc_parts[of s sep] ys by auto
    then have "s = [] @ x @ b" by simp
    then show ?thesis by (intro exI)
  next
    assume "x \<in> set ys"
    then show ?thesis using splitc_parts[of s sep] ys by auto
  qed
qed

lemma splitc_no_dotdot: "\<not> Contains c ''..'' \<Longrightarrow> ''..'' \<notin> set (splitc sep c)"
  using splitc_elem_substring[of "''..''" sep c] by (auto simp: Contains_iff)

lemma Join2: "R \<noteq> [] \<Longrightarrow> Join [R, c] = Clean (R @ CHR ''/'' # c)"
  by (simp add: Join_def)

lemma locationOf_append:
  "''..'' \<notin> set (splitc (CHR ''/'') c) \<Longrightarrow>
   locationOf (R @ CHR ''/'' # c)
     = locationOf R @ filter (\<lambda>x. x \<noteq> [] \<and> x \<noteq> ''.'') (splitc (CHR ''/'') c)"
  by (simp add: locationOf_def splitc_append cleanElems_append cleanElems_no_dotdot)

lemma elems_valid:
  "''..'' \<notin> set (splitc (CHR ''/'') c) \<Longrightarrow>
   \<forall>x \<in> set (filter (\<lambda>x. x \<noteq> [] \<and> x \<noteq> ''.'') (splitc (CHR ''/'') c)). validName x"
  using splitc_elems_no_sep[of _ "CHR ''/''" c] by (auto simp: validName_def)

lemma Join_target:
  assumes R: "R \<noteq> []" "hd R = CHR ''/''" and c: "\<not> Contains c ''..''"
  shows "Join [R, c] = CHR ''/'' # joinc (CHR ''/'')
           (locationOf R @ filter (\<lambda>x. x \<noteq> [] \<and> x \<noteq> ''.'') (splitc (CHR ''/'') c))"
    and "locationOf (Join [R, c])
           = locationOf R @ filter (\<lambda>x. x \<noteq> [] \<and> x \<noteq> ''.'') (splitc (CHR ''/'') c)"
proof -
  let ?xs = "filter (\<lambda>x. x \<noteq> [] \<and> x \<noteq> ''.'') (splitc (CHR ''/'') c)"
  have nd: "''..'' \<notin> set (splitc (CHR ''/'') c)" using c by (rule splitc_no_dotdot)
  have rooted: "R @ CHR ''/'' # c \<noteq> []" "hd (R @ CHR ''/'' # c) = CHR ''/''"
    using R by auto
  show 1: "Join [R, c] = CHR ''/'' # joinc (CHR ''/'') (locationOf R @ ?xs)"
    using R(1) by (simp add: Join2 Clean_rooted[OF rooted] locationOf_append[OF nd])
  have "\<forall>x \<in> set (locationOf R @ ?xs). validName x"
    using locationOf_valid[of R] elems_valid[OF nd] by auto
  then show "locationOf (Join [R, c]) = locationOf R @ ?xs"
    unfolding 1 by (rule locationOf_abs)
qed

lemma joinc_hd_not_sep:
  "xs \<noteq> [] \<Longrightarrow> \<forall>x \<in> set xs. validName x \<Longrightarrow>
   joinc (CHR ''/'') xs \<noteq> [] \<and> hd (joinc (CHR ''/'') xs) \<noteq> CHR ''/''"
proof -
  assume xs: "xs \<noteq> []" and v: "\<forall>x \<in> set xs. validName x"
  obtain x xs' where c: "xs = x # xs'" using xs by (cases xs) auto
  then obtain a t where x: "x = a # t" "a \<noteq> CHR ''/''"
    using v by (cases x) (auto simp: validName_def)
  show ?thesis
    using c x by (cases xs') auto
qed

lemma prefix_check:
  assumes R: "R \<noteq> []" "hd R = CHR ''/''" and c: "\<not> Contains c ''..''"
      and chk: "HasPrefix (Join [R, c]) (Clean R @ [CHR ''/''])"
  shows "filter (\<lambda>x. x \<noteq> [] \<and> x \<noteq> ''.'') (splitc (CHR ''/'') c) \<noteq> []"
proof
  assume "filter (\<lambda>x. x \<noteq> [] \<and> x \<noteq> ''.'') (splitc (CHR ''/'') c) = []"
  then have "Join [R, c] = Clean R"
    using Join_target(1)[OF R c] Clean_rooted[OF R] by simp
  then show False using chk by (simp add: HasPrefix_def)
qed

lemma Dir_abs:
  assumes xs: "xs \<noteq> []" and v: "\<forall>x \<in> set xs. validName x"
  shows "Dir (CHR ''/'' # joinc (CHR ''/'') xs) = CHR ''/'' # joinc (CHR ''/'') (butlast xs)"
proof -
  obtain ys y where s: "xs = ys @ [y]" using xs by (metis rev_exhaust)
  have y: "\<And>c. c \<in> set (rev y) \<Longrightarrow> c \<noteq> CHR ''/''"
    using v s by (auto simp: validName_def)
  have vy: "\<forall>x \<in> set ys. validName x" using v s by auto
  show ?thesis
  proof (cases "ys = []")
    case True
    have "rev (dropWhile (\<lambda>c. c \<noteq> CHR ''/'') (rev (CHR ''/'' # y))) = ''/''"
      using dropWhile_append2[of "rev y" "\<lambda>c. c \<noteq> CHR ''/''" "''/''"] y by simp
    then show ?thesis
      using True s by (simp add: Dir_def Clean_def)
  next
    case False
    have T: "CHR ''/'' # joinc (CHR ''/'') xs = (CHR ''/'' # joinc (CHR ''/'') ys) @ CHR ''/'' # y"
      using False s by (simp add: joinc_snoc)
    have "rev (dropWhile (\<lambda>c. c \<noteq> CHR ''/'')
                (rev ((CHR ''/'' # joinc (CHR ''/'') ys) @ CHR ''/'' # y)))
          = (CHR ''/'' # joinc (CHR ''/'') ys) @ ''/''"
      using dropWhile_append2[of "rev y" "\<lambda>c. c \<noteq> CHR ''/''"
              "CHR ''/'' # rev (CHR ''/'' # joinc (CHR ''/'') ys)"] y
      by simp
    then have D: "Dir (CHR ''/'' # joinc (CHR ''/'') xs)
                  = Clean ((CHR ''/'' # joinc (CHR ''/'') ys) @ ''/'')"
      unfolding T Dir_def by simp
    have sp: "splitc (CHR ''/'') (joinc (CHR ''/'') ys) = ys"
      using False vy by (intro splitc_joinc) (auto simp: validName_def)
    have "locationOf ((CHR ''/'' # joinc (CHR ''/'') ys) @ ''/'') = ys"
      using vy by (simp add: locationOf_def splitc_append sp cleanElems_append cleanElems_valid)
    then show ?thesis
      unfolding D using s by (simp add: Clean_rooted)
  qed
qed

section \<open>Facts about the file system\<close>

lemma lookup_append:
  "lookup t (p @ r) = (case lookup t p of None \<Rightarrow> None | Some n \<Rightarrow> lookup n r)"
  by (induction t p rule: lookup.induct) (auto split: option.splits)

lemma lookup_below_none: "lookup t p = None \<Longrightarrow> prefix p q \<Longrightarrow> lookup t q = None"
  by (auto simp: prefix_def lookup_append)

lemma lookup_prefix_exists:
  assumes "lookup t q \<noteq> None" and "prefix p q"
  shows "lookup t p \<noteq> None"
proof
  assume "lookup t p = None"
  then have "lookup t q = None" using assms(2) by (rule lookup_below_none)
  then show False using assms(1) by simp
qed

lemma lookup_below_file:
  "lookup t p = Some (RegFile m b) \<Longrightarrow> strict_prefix p q \<Longrightarrow> lookup t q = None"
proof -
  assume f: "lookup t p = Some (RegFile m b)" and "strict_prefix p q"
  then obtain r where "q = p @ r" "r \<noteq> []" by (auto simp: strict_prefix_def prefix_def)
  then show ?thesis using f by (cases r) (auto simp: lookup_append)
qed

lemma stat_None: "stat t q = None \<longleftrightarrow> lookup t q = None"
  by (simp add: stat_def)

lemma stat_IsDir: "stat t q = Some (IsDir m) \<longleftrightarrow> (\<exists>es. lookup t q = Some (Directory m es))"
proof (cases "lookup t q")
  case None
  then show ?thesis by (simp add: stat_def)
next
  case (Some n)
  then show ?thesis by (cases n) (auto simp: stat_def)
qed

lemma stat_IsFile: "stat t q = Some (IsFile m b) \<longleftrightarrow> lookup t q = Some (RegFile m b)"
proof (cases "lookup t q")
  case None
  then show ?thesis by (simp add: stat_def)
next
  case (Some n)
  then show ?thesis by (cases n) (auto simp: stat_def)
qed

lemma map_of_update: "map_of (AList.update k v al) k' = (if k' = k then Some v else map_of al k')"
  by (simp add: update_conv')

lemma map_of_delete: "map_of (AList.delete k al) k' = (if k' = k then None else map_of al k')"
  by (simp add: delete_conv')

lemma stat_put_frame: "\<not> prefix p q \<Longrightarrow> stat (put t p n) q = stat t q"
proof (induction t p n arbitrary: q rule: put.induct)
  case (1 t n)
  then show ?case by simp
next
  case (2 m b c cs n)
  then show ?case by simp
next
  case (3 m es c cs n)
  show ?case
  proof (cases q)
    case Nil
    then show ?thesis by (simp add: stat_def split: option.splits)
  next
    case (Cons d ds)
    show ?thesis
    proof (cases "d = c")
      case False
      then show ?thesis using Cons by (simp add: stat_def map_of_update split: option.splits)
    next
      case True
      then have np: "\<not> prefix cs ds" using "3.prems" Cons by simp
      show ?thesis
      proof (cases "map_of es c")
        case None
        then show ?thesis using np by auto
      next
        case (Some t')
        have "stat (put t' cs n) ds = stat t' ds" using "3.IH"[OF Some np] .
        then show ?thesis using Some True Cons by (simp add: stat_def map_of_update)
      qed
    qed
  qed
qed

lemma lookup_put_below:
  "p \<noteq> [] \<Longrightarrow> lookup t (butlast p) = Some (Directory m es) \<Longrightarrow>
   lookup (put t p n) (p @ r) = lookup n r"
proof (induction t p n arbitrary: r rule: put.induct)
  case (1 t n)
  then show ?case by simp
next
  case (2 m' b c cs n)
  then show ?case by (cases cs) auto
next
  case (3 m' es' c cs n)
  show ?case
  proof (cases "cs = []")
    case True
    then show ?thesis by (simp add: map_of_update split: option.splits)
  next
    case False
    then obtain t' where t': "map_of es' c = Some t'" "lookup t' (butlast cs) = Some (Directory m es)"
      using "3.prems" by (auto split: option.splits)
    have "lookup (put t' cs n) (cs @ r) = lookup n r"
      using "3.IH"[OF t'(1) False t'(2)] .
    then show ?thesis using t' by (simp add: map_of_update)
  qed
qed

lemma lookup_put_same:
  "p \<noteq> [] \<Longrightarrow> lookup t (butlast p) = Some (Directory m es) \<Longrightarrow> lookup (put t p n) p = Some n"
  using lookup_put_below[of p t m es n "[]"] by simp

lemma stat_remove_frame: "\<not> prefix p q \<Longrightarrow> stat (remove t p) q = stat t q"
proof (induction t p arbitrary: q rule: remove.induct)
  case (1 m b cs)
  then show ?case by simp
next
  case (2 m es)
  then show ?case by simp
next
  case (3 m es c)
  then show ?case
    by (cases q) (auto simp: stat_def map_of_delete split: option.splits)
next
  case (4 m es c c' cs)
  show ?case
  proof (cases q)
    case Nil
    then show ?thesis by (simp add: stat_def split: option.splits)
  next
    case (Cons d ds)
    show ?thesis
    proof (cases "d = c")
      case False
      then show ?thesis using Cons by (simp add: stat_def map_of_update split: option.splits)
    next
      case True
      then have np: "\<not> prefix (c' # cs) ds" using "4.prems" Cons by simp
      show ?thesis
      proof (cases "map_of es c")
        case None
        then show ?thesis by simp
      next
        case (Some t')
        have "stat (remove t' (c' # cs)) ds = stat t' ds" using "4.IH"[OF Some np] .
        then show ?thesis using Some True Cons by (simp add: stat_def map_of_update)
      qed
    qed
  qed
qed

lemma lookup_remove_below: "p \<noteq> [] \<Longrightarrow> lookup (remove t p) (p @ r) = None"
proof (induction t p arbitrary: r rule: remove.induct)
  case (1 m b cs)
  then show ?case by (cases cs) auto
next
  case (2 m es)
  then show ?case by simp
next
  case (3 m es c)
  then show ?case by (simp add: map_of_delete)
next
  case (4 m es c c' cs)
  then show ?case by (auto simp: map_of_update split: option.splits)
qed

lemma stat_eq_exists: "stat a q = stat b q \<Longrightarrow> lookup b q \<noteq> None \<Longrightarrow> lookup a q \<noteq> None"
  by (cases "lookup a q"; cases "lookup b q") (auto simp: stat_def)

lemma unchangedOutside_refl: "unchangedOutside root fs fs"
  by (simp add: unchangedOutside_def)

lemma unchangedOutside_trans:
  "unchangedOutside root fs fs1 \<Longrightarrow> unchangedOutside root fs1 fs2 \<Longrightarrow> unchangedOutside root fs fs2"
  by (simp add: unchangedOutside_def)

lemma unchangedOutside_put:
  assumes "strict_prefix root loc"
  shows "unchangedOutside root fs (put fs loc n)"
  unfolding unchangedOutside_def
proof (intro allI impI)
  fix q
  assume q: "\<not> strict_prefix root q"
  have "\<not> prefix loc q"
  proof
    assume "prefix loc q"
    with assms have "strict_prefix root q" by (rule prefix_order.less_le_trans)
    then show False using q by simp
  qed
  then show "stat (put fs loc n) q = stat fs q" by (rule stat_put_frame)
qed

lemma unchangedOutside_root:
  assumes "unchangedOutside root fs fs'" and "lookup fs root = Some (Directory m es)"
  shows "\<exists>es'. lookup fs' root = Some (Directory m es')"
proof -
  have "stat fs' root = stat fs root" using assms(1) by (simp add: unchangedOutside_def)
  also have "\<dots> = Some (IsDir m)" using assms(2) by (simp add: stat_def)
  finally show ?thesis by (simp add: stat_IsDir)
qed

lemma mkdir_Inr:
  assumes "mkdir e fs loc perm = Inr fs'"
  shows "fs' = put fs loc (Directory (creationMode e perm) [])"
    and "lookup fs loc = None" and "loc \<noteq> []"
    and "\<exists>m es. lookup fs (butlast loc) = Some (Directory m es)"
  using assms
  by (auto simp: mkdir_def split: if_splits option.splits node.splits)

lemma mkdirAll_props:
  "mkdirAll e fs loc perm = Inr fs' \<Longrightarrow>
     (\<forall>q. lookup fs q \<noteq> None \<longrightarrow> stat fs' q = stat fs q)
   \<and> (\<forall>q. \<not> prefix q loc \<longrightarrow> lookup fs q = None \<longrightarrow> lookup fs' q = None)
   \<and> (\<exists>m es. lookup fs' loc = Some (Directory m es))"
proof (induction e fs loc perm arbitrary: fs' rule: mkdirAll.induct)
  case (1 e fs loc perm)
  show ?case
  proof (cases "lookup fs loc")
    case (Some n)
    then show ?thesis
      using "1.prems" by (cases n) (auto simp: mkdirAll.simps[of e fs loc perm])
  next
    case None
    define parent where "parent = (if butlast loc \<noteq> [] then mkdirAll e fs (butlast loc) perm else Inr fs)"
    obtain fs1 where fs1: "parent = Inr fs1"
      using "1.prems" None
      by (cases parent) (auto simp: mkdirAll.simps[of e fs loc perm] parent_def)
    have step: "(case mkdir e fs1 loc perm of
                   Inr fs2 \<Rightarrow> Inr fs2
                 | Inl err \<Rightarrow> (case lookup fs1 loc of
                                Some (Directory m es) \<Rightarrow> Inr fs1
                              | _ \<Rightarrow> Inl err)) = Inr fs'"
      using "1.prems" None fs1
      by (simp add: mkdirAll.simps[of e fs loc perm] parent_def)
    have p1: "(\<forall>q. lookup fs q \<noteq> None \<longrightarrow> stat fs1 q = stat fs q)
            \<and> (\<forall>q. \<not> prefix q loc \<longrightarrow> lookup fs q = None \<longrightarrow> lookup fs1 q = None)"
    proof (cases "butlast loc \<noteq> []")
      case True
      then have "mkdirAll e fs (butlast loc) perm = Inr fs1" using fs1 by (simp add: parent_def)
      from "1.IH"[OF None True this]
      have a: "\<forall>q. lookup fs q \<noteq> None \<longrightarrow> stat fs1 q = stat fs q"
        and b: "\<forall>q. \<not> prefix q (butlast loc) \<longrightarrow> lookup fs q = None \<longrightarrow> lookup fs1 q = None"
        by blast+
      have "\<not> prefix q loc \<Longrightarrow> \<not> prefix q (butlast loc)" for q
        using prefix_order.trans[OF _ prefixeq_butlast[of loc]] by blast
      then show ?thesis using a b by blast
    next
      case False
      then show ?thesis using fs1 by (simp add: parent_def)
    qed
    show ?thesis
    proof (cases "mkdir e fs1 loc perm")
      case (Inr fs2)
      then have eq: "fs' = fs2" using step by simp
      note mk = mkdir_Inr[OF Inr]
      have new: "lookup fs' loc = Some (Directory (creationMode e perm) [])"
        using mk eq lookup_put_same[of loc fs1] by auto
      have ex: "stat fs' q = stat fs q" if q: "lookup fs q \<noteq> None" for q
      proof -
        have 1: "stat fs1 q = stat fs q" using p1 q by blast
        then have "lookup fs1 q \<noteq> None" using q by (rule stat_eq_exists)
        then have "\<not> prefix loc q" using mk(2) lookup_prefix_exists by blast
        then show ?thesis using 1 eq mk(1) by (simp add: stat_put_frame)
      qed
      have nex: "lookup fs' q = None" if q: "\<not> prefix q loc" "lookup fs q = None" for q
      proof -
        have 1: "lookup fs1 q = None" using p1 q by blast
        show ?thesis
        proof (cases "prefix loc q")
          case False
          then have "stat fs' q = stat fs1 q" using eq mk(1) by (simp add: stat_put_frame)
          then show ?thesis using 1 by (simp add: stat_def)
        next
          case True
          then obtain r where r: "q = loc @ r" by (auto simp: prefix_def)
          then have "r \<noteq> []" using q(1) by auto
          then show ?thesis using new r by (cases r) (auto simp: lookup_append)
        qed
      qed
      show ?thesis using ex nex new by blast
    next
      case (Inl err)
      then obtain m es where d: "lookup fs1 loc = Some (Directory m es)" and eq: "fs' = fs1"
        using step by (auto split: option.splits node.splits)
      then show ?thesis using p1 by simp
    qed
  qed
qed

lemma mkdirAll_under:
  assumes mk: "mkdirAll e fs loc perm = Inr fs'"
      and root: "lookup fs root = Some (Directory m es)" and pre: "prefix root loc"
  shows "unchangedOutside root fs fs'"
  unfolding unchangedOutside_def
proof (intro allI impI)
  fix q
  assume q: "\<not> strict_prefix root q"
  note props = mkdirAll_props[OF mk]
  show "stat fs' q = stat fs q"
  proof (cases "lookup fs q")
    case (Some n)
    then show ?thesis using props by simp
  next
    case None
    have "\<not> prefix q loc"
    proof
      assume "prefix q loc"
      then have "prefix q root \<or> prefix root q" using pre by (rule prefix_same_cases)
      then show False
      proof
        assume "prefix q root"
        then have "lookup fs q \<noteq> None" using root lookup_prefix_exists[of fs root q] by simp
        then show False using None by simp
      next
        assume "prefix root q"
        then have "q = root" using q by (simp add: strict_prefix_def)
        then show False using None root by simp
      qed
    qed
    then have "lookup fs' q = None" using props None by blast
    then show ?thesis using None by (simp add: stat_def)
  qed
qed

lemma mkdirAll_existing:
  "lookup fs loc = Some (Directory m es) \<Longrightarrow> mkdirAll e fs loc perm = Inr fs"
  by (simp add: mkdirAll.simps[of e fs loc perm])

lemma mkdirAll_file:
  "lookup fs loc = Some (RegFile m b) \<Longrightarrow> mkdirAll e fs loc perm = Inl ENOTDIR"
  by (simp add: mkdirAll.simps[of e fs loc perm])

lemma mkdirAll_one_level:
  assumes parent: "lookup fs L = Some (Directory m es)" and new: "lookup fs (L @ [c]) = None"
  shows "mkdirAll e fs (L @ [c]) perm = Inr (put fs (L @ [c]) (Directory (creationMode e perm) []))"
proof -
  have p: "(if butlast (L @ [c]) \<noteq> [] then mkdirAll e fs (butlast (L @ [c])) perm else Inr fs)
           = Inr fs"
    using parent by (simp add: mkdirAll_existing)
  have mk: "mkdir e fs (L @ [c]) perm = Inr (put fs (L @ [c]) (Directory (creationMode e perm) []))"
    using parent new by (simp add: mkdir_def)
  show ?thesis
    by (simp only: mkdirAll.simps[of e fs "L @ [c]" perm] new p mk option.case sum.case)
qed

lemma below_new_none:
  assumes "lookup fs l = None \<or> (\<exists>m b. lookup fs l = Some (RegFile m b))"
      and "strict_prefix l q"
  shows "lookup fs q = None"
  using assms lookup_below_none[of fs l q] lookup_below_file[of fs l _ _ q]
  by (auto simp: strict_prefix_def)

lemma put_leaf_stat:
  assumes l: "l \<noteq> []" and parent: "lookup fs (butlast l) = Some (Directory m es)"
      and leaf: "\<And>r. r \<noteq> [] \<Longrightarrow> lookup n r = None"
      and old: "lookup fs l = None \<or> (\<exists>m b. lookup fs l = Some (RegFile m b))"
  shows "stat (put fs l n) q = (if q = l then Some (attr_of n) else stat fs q)"
proof (cases "q = l")
  case True
  then show ?thesis using lookup_put_same[OF l parent, of n] by (simp add: stat_def)
next
  case False
  show ?thesis
  proof (cases "prefix l q")
    case np: False
    then show ?thesis using False by (simp add: stat_put_frame)
  next
    case True
    then obtain r where r: "q = l @ r" by (auto simp: prefix_def)
    then have rne: "r \<noteq> []" using False by auto
    have sp: "strict_prefix l q" using True False by (simp add: strict_prefix_def)
    have old': "lookup fs q = None" using old sp by (rule below_new_none)
    have "lookup (put fs l n) q = lookup n r"
      unfolding r using l parent by (rule lookup_put_below)
    then have "lookup (put fs l n) q = None" using leaf[OF rne] by simp
    then show ?thesis using old' False by (simp add: stat_def)
  qed
qed

lemma leaf_RegFile: "r \<noteq> [] \<Longrightarrow> lookup (RegFile m b) r = None"
  by (cases r) auto

lemma leaf_empty_Directory: "r \<noteq> [] \<Longrightarrow> lookup (Directory m []) r = None"
  by (cases r) auto

lemma lookup_put_other:
  "\<not> prefix p q \<Longrightarrow> \<not> prefix q p \<Longrightarrow> lookup (put t p n) q = lookup t q"
proof (induction t p n arbitrary: q rule: put.induct)
  case (1 t n)
  then show ?case by simp
next
  case (2 m b c cs n)
  then show ?case by simp
next
  case (3 m es c cs n)
  show ?case
  proof (cases q)
    case Nil
    then show ?thesis using "3.prems" by simp
  next
    case (Cons d ds)
    show ?thesis
    proof (cases "d = c")
      case False
      then show ?thesis using Cons by (simp add: map_of_update split: option.splits)
    next
      case True
      then have np: "\<not> prefix cs ds" "\<not> prefix ds cs" using "3.prems" Cons by simp_all
      show ?thesis
      proof (cases "map_of es c")
        case None
        then show ?thesis using np by auto
      next
        case (Some t')
        have "lookup (put t' cs n) ds = lookup t' ds" using "3.IH"[OF Some np] .
        then show ?thesis using Some True Cons by (simp add: map_of_update)
      qed
    qed
  qed
qed

section \<open>Paths of locations and the system calls\<close>

lemma lookup_parent_dir:
  assumes "lookup fs (p @ r) = Some n" and "r \<noteq> []"
  shows "\<exists>m es. lookup fs p = Some (Directory m es)"
proof (cases "lookup fs p")
  case None
  then show ?thesis using assms(1) by (simp add: lookup_append)
next
  case (Some t)
  obtain c cs where r: "r = c # cs" using assms(2) by (cases r) auto
  show ?thesis
  proof (cases t)
    case (RegFile m b)
    then show ?thesis using assms(1) Some r by (simp add: lookup_append)
  next
    case (Directory m es)
    then show ?thesis using Some by simp
  qed
qed

lemma lookup_butlast_dir:
  assumes "lookup fs l = Some n" and "l \<noteq> []"
  shows "\<exists>m es. lookup fs (butlast l) = Some (Directory m es)"
  using lookup_parent_dir[of fs "butlast l" "[last l]" n] assms by simp

lemma root_dir:
  assumes "lookup fs l = Some (Directory m es)"
  shows "\<exists>m0 es0. fs = Directory m0 es0"
proof (cases "l = []")
  case True
  then show ?thesis using assms by simp
next
  case False
  then show ?thesis using lookup_parent_dir[of fs "[]" l] assms by simp
qed

lemma namei_valid_Inr:
  "\<forall>x \<in> set xs. validName x \<Longrightarrow>
   (xs \<noteq> [] \<longrightarrow> (\<exists>m es. lookup fs (cur @ butlast xs) = Some (Directory m es))) \<Longrightarrow>
   namei fs cur xs = Inr (cur @ xs)"
proof (induction xs arbitrary: cur)
  case Nil
  then show ?case by simp
next
  case (Cons x xs)
  obtain m es where par: "lookup fs (cur @ butlast (x # xs)) = Some (Directory m es)"
    using Cons.prems(2) by auto
  have "\<exists>m es. lookup fs cur = Some (Directory m es)"
  proof (cases "xs = []")
    case True
    then show ?thesis using par by simp
  next
    case False
    then have "lookup fs (cur @ (x # butlast xs)) = Some (Directory m es)" using par by simp
    then show ?thesis by (rule lookup_parent_dir) simp
  qed
  then obtain mc esc where cur: "lookup fs cur = Some (Directory mc esc)" by auto
  have x: "x \<noteq> []" "x \<noteq> ''.''" "x \<noteq> ''..''" using Cons.prems(1) by (auto simp: validName_def)
  have "namei fs (cur @ [x]) xs = Inr ((cur @ [x]) @ xs)"
  proof (rule Cons.IH)
    show "\<forall>x \<in> set xs. validName x" using Cons.prems(1) by simp
    show "xs \<noteq> [] \<longrightarrow> (\<exists>m es. lookup fs ((cur @ [x]) @ butlast xs) = Some (Directory m es))"
      using par by auto
  qed
  then show ?case using cur x by simp
qed

lemma namei_valid_result:
  "\<forall>x \<in> set xs. validName x \<Longrightarrow> namei fs cur xs = Inr loc \<Longrightarrow>
   loc = cur @ xs \<and> (xs \<noteq> [] \<longrightarrow> (\<exists>m es. lookup fs (cur @ butlast xs) = Some (Directory m es)))"
proof (induction xs arbitrary: cur)
  case Nil
  then show ?case by simp
next
  case (Cons x xs)
  have x: "x \<noteq> []" "x \<noteq> ''.''" "x \<noteq> ''..''" using Cons.prems(1) by (auto simp: validName_def)
  obtain mc esc where cur: "lookup fs cur = Some (Directory mc esc)"
    using Cons.prems(2) by (auto split: option.splits node.splits)
  then have nx: "namei fs (cur @ [x]) xs = Inr loc" using Cons.prems(2) x by simp
  have v: "\<forall>x \<in> set xs. validName x" using Cons.prems(1) by simp
  note IH = Cons.IH[OF v nx]
  show ?case
  proof (cases "xs = []")
    case True
    then show ?thesis using IH cur by simp
  next
    case False
    then show ?thesis using IH by simp
  qed
qed

lemma namei_valid_Inl:
  assumes "\<forall>x \<in> set xs. validName x" and "namei fs cur xs = Inl err"
  shows "lookup fs (cur @ xs) = None"
proof (cases "lookup fs (cur @ xs)")
  case None
  then show ?thesis .
next
  case (Some n)
  have "xs \<noteq> []" using assms(2) by auto
  then have "\<exists>m es. lookup fs (cur @ butlast xs) = Some (Directory m es)"
    using lookup_parent_dir[of fs "cur @ butlast xs" "[last xs]" n] Some by simp
  then have "namei fs cur xs = Inr (cur @ xs)"
    using assms(1) by (intro namei_valid_Inr) auto
  then show ?thesis using assms(2) by simp
qed

lemma splitc_pathOf:
  assumes "\<forall>x \<in> set xs. validName x"
  shows "splitc (CHR ''/'') (pathOf xs) = (if xs = [] then [[], []] else [] # xs)"
proof (cases "xs = []")
  case True
  then show ?thesis by (simp add: pathOf_def)
next
  case False
  have "splitc (CHR ''/'') (joinc (CHR ''/'') xs) = xs"
    using False assms by (intro splitc_joinc) (auto simp: validName_def)
  then show ?thesis using False by (simp add: pathOf_def)
qed

lemma locate_pathOf:
  assumes "\<forall>x \<in> set xs. validName x" and "xs \<noteq> []"
      and "lookup fs (butlast xs) = Some (Directory m es)"
  shows "locate e fs (pathOf xs) = Inr xs"
proof -
  obtain m0 es0 where root: "fs = Directory m0 es0" using root_dir[OF assms(3)] by auto
  have "namei fs [] xs = Inr ([] @ xs)"
    using assms by (intro namei_valid_Inr) auto
  then show ?thesis
    using root assms(2) by (simp add: locate_def splitc_pathOf[OF assms(1)]) (simp add: pathOf_def)
qed

lemma locate_pathOf_root: "locate e (Directory m es) (pathOf []) = Inr []"
  by (simp add: locate_def pathOf_def)

lemma locate_pathOf_result:
  assumes "\<forall>x \<in> set xs. validName x" and "locate e fs (pathOf xs) = Inr loc"
  shows "loc = xs" and "xs \<noteq> [] \<Longrightarrow> \<exists>m es. lookup fs (butlast xs) = Some (Directory m es)"
    and "\<exists>m es. fs = Directory m es"
proof -
  have hd: "pathOf xs \<noteq> []" "hd (pathOf xs) = CHR ''/''" by (simp_all add: pathOf_def)
  have n: "namei fs [] (splitc (CHR ''/'') (pathOf xs)) = Inr loc"
    using assms(2) hd by (simp add: locate_def)
  show root: "\<exists>m es. fs = Directory m es"
    using n by (cases fs) (auto simp: splitc_pathOf[OF assms(1)] split: if_splits)
  then have n': "namei fs [] xs = Inr loc"
    using n by (auto simp: splitc_pathOf[OF assms(1)] split: if_splits)
  note r = namei_valid_result[OF assms(1) n']
  show "loc = xs" using r by simp
  show "xs \<noteq> [] \<Longrightarrow> \<exists>m es. lookup fs (butlast xs) = Some (Directory m es)" using r by simp
qed

lemma locate_pathOf_Inl:
  assumes "\<forall>x \<in> set xs. validName x" and "xs \<noteq> []" and "locate e fs (pathOf xs) = Inl err"
  shows "lookup fs xs = None"
proof (cases fs)
  case (RegFile m b)
  then show ?thesis using assms(2) by (cases xs) auto
next
  case (Directory m es)
  have hd: "pathOf xs \<noteq> []" "hd (pathOf xs) = CHR ''/''" by (simp_all add: pathOf_def)
  have "namei fs [] xs = Inl err"
    using assms(2,3) hd Directory by (simp add: locate_def splitc_pathOf[OF assms(1)])
  then have "lookup fs ([] @ xs) = None" using assms(1) by (intro namei_valid_Inl)
  then show ?thesis by simp
qed

lemma Stat_pathOf:
  assumes "\<forall>x \<in> set xs. validName x" and "xs \<noteq> [] \<or> (\<exists>m es. fs = Directory m es)"
  shows "Stat e fs (pathOf xs) = lookup fs xs"
proof (cases "locate e fs (pathOf xs)")
  case (Inr loc)
  then show ?thesis using locate_pathOf_result(1)[OF assms(1) Inr] by (simp add: Stat_def)
next
  case (Inl err)
  show ?thesis
  proof (cases "xs = []")
    case True
    then show ?thesis using assms(2) Inl by (auto simp: locate_pathOf_root)
  next
    case False
    then show ?thesis using locate_pathOf_Inl[OF assms(1) False Inl] Inl by (simp add: Stat_def)
  qed
qed

lemma pathOf_last:
  assumes "\<forall>x \<in> set xs. validName x" and "xs \<noteq> []"
  shows "\<exists>s a. pathOf xs = s @ [a] \<and> a \<noteq> CHR ''/''"
proof -
  obtain ys y where s: "xs = ys @ [y]" using assms(2) by (metis rev_exhaust)
  have "validName y" using assms(1) s by simp
  then obtain t a where y: "y = t @ [a]" "a \<noteq> CHR ''/''"
    by (cases y rule: rev_cases) (auto simp: validName_def)
  show ?thesis
  proof (cases "ys = []")
    case True
    then have "pathOf xs = (CHR ''/'' # t) @ [a]" using s y by (simp add: pathOf_def)
    then show ?thesis using y(2) by blast
  next
    case False
    then have "pathOf xs = (CHR ''/'' # joinc (CHR ''/'') ys @ CHR ''/'' # t) @ [a]"
      using s y by (simp add: pathOf_def joinc_snoc)
    then show ?thesis using y(2) by blast
  qed
qed

lemma pathOf_no_trailing_slash:
  assumes "\<forall>x \<in> set xs. validName x" and "xs \<noteq> []"
  shows "TrimRight (pathOf xs) ''/'' = pathOf xs" and "\<not> HasSuffix (pathOf xs) ''/''"
    and "\<not> HasSuffix (pathOf xs) ''/.''" and "pathOf xs \<noteq> ''.''"
proof -
  obtain s a where p: "pathOf xs = s @ [a]" "a \<noteq> CHR ''/''"
    using pathOf_last[OF assms] by auto
  show "TrimRight (pathOf xs) ''/'' = pathOf xs"
    using p by (simp add: TrimRight_def)
  show "\<not> HasSuffix (pathOf xs) ''/''"
    using p by (simp add: HasSuffix_def)
  show "pathOf xs \<noteq> ''.''" by (simp add: pathOf_def)
  obtain ys y where s: "xs = ys @ [y]" using assms(2) by (metis rev_exhaust)
  have vy: "validName y" using assms(1) s by simp
  have "pathOf xs = (if ys = [] then ''/'' else pathOf ys @ ''/'') @ y"
    using s by (simp add: pathOf_def joinc_snoc)
  then obtain pre where pre: "pathOf xs = pre @ CHR ''/'' # y" by (cases "ys = []") auto
  show "\<not> HasSuffix (pathOf xs) ''/.''"
  proof
    assume "HasSuffix (pathOf xs) ''/.''"
    then have "drop (length (pathOf xs) - length ''/.'') (pathOf xs) = ''/.''"
      by (simp only: HasSuffix_def)
    then obtain u where u: "pathOf xs = u @ ''/.''"
      by (metis append_take_drop_id)
    have "CHR ''/'' \<notin> set y" using vy by (simp add: validName_def)
    have "rev (pathOf xs) = rev y @ CHR ''/'' # rev pre" using pre by simp
    moreover have "rev (pathOf xs) = CHR ''.'' # CHR ''/'' # rev u" using u by simp
    ultimately have e: "rev y @ CHR ''/'' # rev pre = CHR ''.'' # CHR ''/'' # rev u" by simp
    show False
    proof (cases "rev y")
      case Nil
      then show ?thesis using e by simp
    next
      case (Cons a t)
      then have a: "a = CHR ''.''" and t: "t @ CHR ''/'' # rev pre = CHR ''/'' # rev u" using e by simp_all
      show ?thesis
      proof (cases t)
        case Nil
        then have "y = ''.''" using Cons a by (metis rev_rev_ident rev.simps(1) rev_singleton_conv)
        then show ?thesis using vy by (simp add: validName_def)
      next
        case (Cons b t')
        then have "b = CHR ''/''" using t by simp
        then have "CHR ''/'' \<in> set (rev y)" using \<open>rev y = a # t\<close> Cons by simp
        then show ?thesis using \<open>CHR ''/'' \<notin> set y\<close> by simp
      qed
    qed
  qed
qed

lemma Mkdir_pathOf:
  assumes v: "\<forall>x \<in> set xs. validName x" and ne: "xs \<noteq> []"
      and par: "lookup fs (butlast xs) = Some (Directory m es)"
  shows "Mkdir e fs (pathOf xs) perm = mkdir e fs xs perm"
  using ne par pathOf_no_trailing_slash(1)[OF v ne] locate_pathOf[OF v ne par]
  by (simp add: Mkdir_def mkdir_def pathOf_def)

lemma MkdirAll_parent:
  assumes v: "\<forall>x \<in> set xs. validName x" and ne: "xs \<noteq> []"
  shows "rev (drop 1 (dropWhile (\<lambda>c. c \<noteq> CHR ''/'')
                (dropWhile (\<lambda>c. c = CHR ''/'') (rev (pathOf xs)))))
         = (if butlast xs = [] then [] else pathOf (butlast xs))"
proof -
  obtain ys y where s: "xs = ys @ [y]" using ne by (metis rev_exhaust)
  have vy: "validName y" using v s by simp
  then obtain t a where y: "y = t @ [a]" "a \<noteq> CHR ''/''"
    by (cases y rule: rev_cases) (auto simp: validName_def)
  have ny: "\<And>c. c \<in> set (rev y) \<Longrightarrow> c \<noteq> CHR ''/''" using vy by (auto simp: validName_def)
  have p: "pathOf xs = (if ys = [] then [] else pathOf ys) @ CHR ''/'' # y"
    using s by (simp add: pathOf_def joinc_snoc)
  let ?pre = "if ys = [] then [] else pathOf ys"
  have r: "rev (pathOf xs) = rev y @ CHR ''/'' # rev ?pre" unfolding p by simp
  have 1: "dropWhile (\<lambda>c. c = CHR ''/'') (rev (pathOf xs)) = rev (pathOf xs)"
    unfolding r using y by simp
  have 2: "dropWhile (\<lambda>c. c \<noteq> CHR ''/'') (rev y @ CHR ''/'' # rev ?pre) = CHR ''/'' # rev ?pre"
    using dropWhile_append2[of "rev y" "\<lambda>c. c \<noteq> CHR ''/''" "CHR ''/'' # rev ?pre"] ny by simp
  show ?thesis
    unfolding 1 unfolding r 2 using s by simp
qed

lemma MkdirAll_pathOf:
  "\<forall>x \<in> set xs. validName x \<Longrightarrow> fs = Directory m0 es0 \<Longrightarrow>
   MkdirAll e fs (pathOf xs) perm = mkdirAll e fs xs perm"
proof (induction e fs xs perm rule: mkdirAll.induct)
  case (1 e fs loc perm)
  have root: "\<exists>m es. fs = Directory m es" using "1.prems"(2) by simp
  have st: "Stat e fs (pathOf loc) = lookup fs loc"
    using "1.prems"(1) root by (intro Stat_pathOf) auto
  show ?case
  proof (cases "lookup fs loc")
    case (Some n)
    then show ?thesis
      by (cases n) (simp_all add: MkdirAll.simps[of e fs "pathOf loc" perm]
                      mkdirAll.simps[of e fs loc perm] st)
  next
    case None
    then have ne: "loc \<noteq> []" by auto
    note par = MkdirAll_parent[OF "1.prems"(1) ne]
    have vb: "\<forall>x \<in> set (butlast loc). validName x"
      using "1.prems"(1) by (meson in_set_butlastD)
    define P where "P = (if butlast loc \<noteq> [] then mkdirAll e fs (butlast loc) perm else Inr fs)"
    have Peq: "(if rev (drop 1 (dropWhile (\<lambda>c. c \<noteq> CHR ''/'')
                  (dropWhile (\<lambda>c. c = CHR ''/'') (rev (pathOf loc))))) \<noteq> []
                then MkdirAll e fs
                       (rev (drop 1 (dropWhile (\<lambda>c. c \<noteq> CHR ''/'')
                          (dropWhile (\<lambda>c. c = CHR ''/'') (rev (pathOf loc)))))) perm
                else Inr fs) = P"
    proof (cases "butlast loc = []")
      case True
      then show ?thesis unfolding par P_def by simp
    next
      case False
      have "MkdirAll e fs (pathOf (butlast loc)) perm = mkdirAll e fs (butlast loc) perm"
        using "1.IH"[OF None False vb "1.prems"(2)] .
      then show ?thesis unfolding par P_def using False by (simp add: pathOf_def)
    qed
    have L: "MkdirAll e fs (pathOf loc) perm =
             (case P of Inl err \<Rightarrow> Inl err
              | Inr fs1 \<Rightarrow>
                 (case Mkdir e fs1 (pathOf loc) perm of
                    Inr fs2 \<Rightarrow> Inr fs2
                  | Inl err \<Rightarrow> (case Stat e fs1 (pathOf loc) of
                                 Some (Directory m es) \<Rightarrow> Inr fs1 | _ \<Rightarrow> Inl err)))"
      by (simp only: MkdirAll.simps[of e fs "pathOf loc" perm] st None option.case Peq)
    have Rr: "mkdirAll e fs loc perm =
             (case P of Inl err \<Rightarrow> Inl err
              | Inr fs1 \<Rightarrow>
                 (case mkdir e fs1 loc perm of
                    Inr fs2 \<Rightarrow> Inr fs2
                  | Inl err \<Rightarrow> (case lookup fs1 loc of
                                 Some (Directory m es) \<Rightarrow> Inr fs1 | _ \<Rightarrow> Inl err)))"
      by (simp only: mkdirAll.simps[of e fs loc perm] None option.case P_def)
    show ?thesis
    proof (cases P)
      case (Inl err)
      then show ?thesis unfolding L Rr by simp
    next
      case (Inr fs1)
      have pd: "\<exists>m es. lookup fs1 (butlast loc) = Some (Directory m es)"
      proof (cases "butlast loc = []")
        case True
        then show ?thesis using Inr "1.prems"(2) by (auto simp: P_def)
      next
        case False
        then have "mkdirAll e fs (butlast loc) perm = Inr fs1" using Inr by (simp add: P_def)
        then show ?thesis using mkdirAll_props by blast
      qed
      then obtain m es where pd': "lookup fs1 (butlast loc) = Some (Directory m es)" by auto
      have mk: "Mkdir e fs1 (pathOf loc) perm = mkdir e fs1 loc perm"
        using "1.prems"(1) ne pd' by (rule Mkdir_pathOf)
      have st1: "Stat e fs1 (pathOf loc) = lookup fs1 loc"
        using "1.prems"(1) ne by (intro Stat_pathOf) auto
      show ?thesis unfolding L Rr Inr by (simp add: mk st1 split: sum.splits)
    qed
  qed
qed

lemma OpenFile_pathOf:
  assumes v: "\<forall>x \<in> set l. validName x" and ne: "l \<noteq> []"
      and par: "lookup fs (butlast l) = Some (Directory m es)"
  shows "OpenFile e fs (pathOf l) trunc perm =
           (case lookup fs l of
              Some (Directory m' es') \<Rightarrow> Inl EISDIR
            | Some (RegFile m' b) \<Rightarrow> Inr (if trunc then put fs l (RegFile m' []) else fs)
            | None \<Rightarrow> Inr (put fs l (RegFile (creationMode e perm) [])))"
  using pathOf_no_trailing_slash(2)[OF v ne] locate_pathOf[OF v ne par]
  by (simp add: OpenFile_def)

lemma Write_pathOf:
  assumes v: "\<forall>x \<in> set l. validName x" and ne: "l \<noteq> []"
  shows "Write e fs (pathOf l) p =
           (case lookup fs l of
              Some (RegFile m old) \<Rightarrow> put fs l (RegFile m (p @ drop (length p) old))
            | _ \<Rightarrow> fs)"
proof (cases "locate e fs (pathOf l)")
  case (Inl err)
  then show ?thesis using locate_pathOf_Inl[OF v ne Inl] by (simp add: Write_def)
next
  case (Inr loc)
  then show ?thesis using locate_pathOf_result(1)[OF v Inr] by (simp add: Write_def)
qed

lemma RemoveAll_pathOf:
  assumes v: "\<forall>x \<in> set l. validName x" and ex: "Stat e fs (pathOf l) = Some n"
  shows "RemoveAll e fs (pathOf l) = remove fs l"
proof -
  obtain loc where loc: "locate e fs (pathOf l) = Inr loc"
    using ex by (cases "locate e fs (pathOf l)") (auto simp: Stat_def)
  have eq: "loc = l" using locate_pathOf_result(1)[OF v loc] .
  have nd: "pathOf l \<noteq> ''.''" by (simp add: pathOf_def)
  have ns: "\<not> HasSuffix (pathOf l) ''/.''"
  proof (cases "l = []")
    case True
    then show ?thesis by (simp add: pathOf_def HasSuffix_def)
  next
    case False
    then show ?thesis using pathOf_no_trailing_slash(3)[OF v] by simp
  qed
  show ?thesis using loc eq nd ns by (simp add: RemoveAll_def)
qed

section \<open>Facts about the extraction loop\<close>

lemma target_facts:
  fixes R hdr
  defines "c \<equiv> sanitizeExtractPath Posix (Name hdr)"
  defines "xs \<equiv> filter (\<lambda>x. x \<noteq> [] \<and> x \<noteq> ''.'') (splitc (CHR ''/'') c)"
  assumes R: "R \<noteq> []" "hd R = CHR ''/''" and acc: "accepted R hdr"
  shows "xs \<noteq> []" and "\<forall>x \<in> set xs. validName x"
    and "targetLocation R hdr = locationOf R @ xs"
    and "Join [R, c] = pathOf (locationOf R @ xs)"
    and "Dir (Join [R, c]) = pathOf (locationOf R @ butlast xs)"
proof -
  have nd: "\<not> Contains c ''..''" unfolding c_def by (rule sanitizeExtractPath_no_dotdot)
  have chk: "HasPrefix (Join [R, c]) (Clean R @ [CHR ''/''])"
    using acc by (simp add: accepted_def c_def)
  show ne: "xs \<noteq> []" unfolding xs_def using R nd chk by (rule prefix_check)
  show v: "\<forall>x \<in> set xs. validName x"
    unfolding xs_def using splitc_no_dotdot[OF nd] by (rule elems_valid)
  show tl: "targetLocation R hdr = locationOf R @ xs"
    unfolding targetLocation_def xs_def c_def[symmetric] using R nd by (rule Join_target(2))
  show T: "Join [R, c] = pathOf (locationOf R @ xs)"
    unfolding xs_def pathOf_def using R nd by (rule Join_target(1))
  have vall: "\<forall>x \<in> set (locationOf R @ xs). validName x"
    using v locationOf_valid[of R] by auto
  have "Dir (Join [R, c]) = CHR ''/'' # joinc (CHR ''/'') (butlast (locationOf R @ xs))"
    unfolding T pathOf_def using ne vall by (intro Dir_abs) auto
  then show "Dir (Join [R, c]) = pathOf (locationOf R @ butlast xs)"
    using ne by (simp add: pathOf_def butlast_append)
qed

lemma target_paths:
  assumes R: "R \<noteq> []" "hd R = CHR ''/''" and acc: "accepted R hdr"
  shows "Join [R, sanitizeExtractPath Posix (Name hdr)] = pathOf (targetLocation R hdr)"
    and "Dir (Join [R, sanitizeExtractPath Posix (Name hdr)])
           = pathOf (butlast (targetLocation R hdr))"
    and "\<forall>x \<in> set (targetLocation R hdr). validName x"
    and "strict_prefix (locationOf R) (targetLocation R hdr)"
    and "prefix (locationOf R) (butlast (targetLocation R hdr))"
    and "targetLocation R hdr \<noteq> []"
proof -
  note tf = target_facts[OF R acc]
  show "Join [R, sanitizeExtractPath Posix (Name hdr)] = pathOf (targetLocation R hdr)"
    by (simp add: tf(3) tf(4))
  show "Dir (Join [R, sanitizeExtractPath Posix (Name hdr)])
           = pathOf (butlast (targetLocation R hdr))"
    using tf(1) by (simp add: tf(3) tf(5) butlast_append)
  show "\<forall>x \<in> set (targetLocation R hdr). validName x"
    unfolding tf(3) using tf(2) locationOf_valid[of R] by auto
  show "strict_prefix (locationOf R) (targetLocation R hdr)"
    using tf(1) by (simp add: tf(3) strict_prefix_def)
  show "prefix (locationOf R) (butlast (targetLocation R hdr))"
    using tf(1) by (simp add: tf(3) butlast_append)
  show "targetLocation R hdr \<noteq> []" using tf(1) by (simp add: tf(3))
qed

lemma extractEntry_rejected:
  "\<not> accepted R hdr \<Longrightarrow> extractEntry e R fs hdr p c = (fs, Inr 0)"
  by (auto simp: extractEntry_def accepted_def Let_def)

lemma extractEntry_accepted:
  assumes "accepted R hdr"
  shows "extractEntry e R fs hdr p c =
     (case MkdirAll e fs (Dir (Join [R, sanitizeExtractPath Posix (Name hdr)])) 493 of
        Inl err \<Rightarrow> (fs, Inl (FailedCreateDirectory err))
      | Inr fs1 \<Rightarrow>
          (case Typeflag hdr of
             TypeDir \<Rightarrow>
               (case MkdirAll e fs1 (Join [R, sanitizeExtractPath Posix (Name hdr)]) (Mode hdr) of
                  Inl err \<Rightarrow> (fs1, Inl (FailedCreateDirectoryAt
                                 (Join [R, sanitizeExtractPath Posix (Name hdr)]) err))
                | Inr fs2 \<Rightarrow> (fs2, Inr 0))
           | TypeReg \<Rightarrow>
               (case OpenFile e fs1 (Join [R, sanitizeExtractPath Posix (Name hdr)]) False (Mode hdr) of
                  Inl err \<Rightarrow> (fs1, Inl (FailedCreateFile
                                 (Join [R, sanitizeExtractPath Posix (Name hdr)]) err))
                | Inr fs2 \<Rightarrow>
                    (let fs3 = Write e fs2 (Join [R, sanitizeExtractPath Posix (Name hdr)]) p
                     in if c then (fs3, Inr 1)
                        else (fs3, Inl (FailedExtractFile
                                          (Join [R, sanitizeExtractPath Posix (Name hdr)])))))
           | TypeOther \<Rightarrow> (fs1, Inr 0)))"
  using assms unfolding accepted_def extractEntry_def
  by (simp add: Let_def)

lemma stat_same_file:
  "stat a q = stat b q \<Longrightarrow> lookup a q = Some (RegFile m old) \<longleftrightarrow> lookup b q = Some (RegFile m old)"
  by (simp add: stat_IsFile[symmetric])

lemma stat_same_none: "stat a q = stat b q \<Longrightarrow> lookup a q = None \<longleftrightarrow> lookup b q = None"
  by (simp add: stat_None[symmetric])

lemma stat_same_dir:
  "stat a q = stat b q \<Longrightarrow>
   (\<exists>es. lookup a q = Some (Directory m es)) \<longleftrightarrow> (\<exists>es. lookup b q = Some (Directory m es))"
  by (simp add: stat_IsDir[symmetric])

text \<open>
  What making the directories on the way to a location leaves behind: every location that
  is not on the way is as it was, what was there is as it was, and the way is made of
  directories.
\<close>

lemma mkdirAll_effect:
  assumes mk: "mkdirAll e fs loc perm = Inr fs1"
  shows "\<not> prefix q loc \<Longrightarrow> stat fs1 q = stat fs q"
    and "lookup fs q \<noteq> None \<Longrightarrow> stat fs1 q = stat fs q"
    and "prefix q loc \<Longrightarrow> \<exists>m. stat fs1 q = Some (IsDir m)"
proof -
  note props = mkdirAll_props[OF mk]
  show ex: "lookup fs q \<noteq> None \<Longrightarrow> stat fs1 q = stat fs q" using props by blast
  show "\<not> prefix q loc \<Longrightarrow> stat fs1 q = stat fs q"
  proof (cases "lookup fs q")
    case None
    assume "\<not> prefix q loc"
    then have "lookup fs1 q = None" using props None by blast
    then show ?thesis using None by (simp add: stat_def)
  next
    case (Some n)
    then show ?thesis using ex by simp
  qed
  show "\<exists>m. stat fs1 q = Some (IsDir m)" if pq: "prefix q loc"
  proof -
    obtain m es where d: "lookup fs1 loc = Some (Directory m es)" using props by blast
    obtain r where r: "loc = q @ r" using pq by (auto simp: prefix_def)
    show ?thesis
    proof (cases "r = []")
      case True
      then show ?thesis using d r by (simp add: stat_def)
    next
      case False
      then obtain m' es' where "lookup fs1 q = Some (Directory m' es')"
        using lookup_parent_dir[of fs1 q r] d r by auto
      then show ?thesis by (simp add: stat_def)
    qed
  qed
qed

lemma mkdirAll_mode:
  assumes mk: "mkdirAll e fs loc perm = Inr fs1" and ne: "loc \<noteq> []"
      and par: "lookup fs (butlast loc) = Some (Directory mp esp)"
  shows "stat fs1 loc = Some (IsDir (case lookup fs loc of
                                       Some (Directory m es) \<Rightarrow> m
                                     | _ \<Rightarrow> creationMode e perm))"
    and "lookup fs loc = None \<or> (\<exists>m es. lookup fs loc = Some (Directory m es))"
proof -
  have l: "loc = butlast loc @ [last loc]" using ne by simp
  show "lookup fs loc = None \<or> (\<exists>m es. lookup fs loc = Some (Directory m es))"
  proof (cases "lookup fs loc")
    case None
    then show ?thesis by simp
  next
    case (Some n)
    then show ?thesis using mk by (cases n) (simp_all add: mkdirAll_file)
  qed
  show "stat fs1 loc = Some (IsDir (case lookup fs loc of
                                       Some (Directory m es) \<Rightarrow> m
                                     | _ \<Rightarrow> creationMode e perm))"
  proof (cases "lookup fs loc")
    case None
    have "lookup fs (butlast loc @ [last loc]) = None" using None l by simp
    with par have "mkdirAll e fs (butlast loc @ [last loc]) perm
            = Inr (put fs (butlast loc @ [last loc]) (Directory (creationMode e perm) []))"
      by (rule mkdirAll_one_level)
    then have "fs1 = put fs loc (Directory (creationMode e perm) [])" using mk l by simp
    then have "lookup fs1 loc = Some (Directory (creationMode e perm) [])"
      using lookup_put_same[OF ne par] by simp
    then show ?thesis using None by (simp add: stat_def)
  next
    case (Some n)
    show ?thesis
    proof (cases n)
      case (RegFile m b)
      then show ?thesis using mk Some by (simp add: mkdirAll_file)
    next
      case (Directory m es)
      then have "fs1 = fs" using mk Some by (simp add: mkdirAll_existing)
      then show ?thesis using Some Directory by (simp add: stat_def)
    qed
  qed
qed

text \<open>
  What one round of the loop does for an accepted entry, whatever its outcome: locations
  that are not on the way from the root to the target are as they were, and so is everything
  that was there, the target itself set aside. When the round ends without an error, the
  way to the target is made of directories, and the target holds what the entry says.
\<close>

lemma extractEntry_effect:
  assumes R: "R \<noteq> []" "hd R = CHR ''/''"
      and root: "lookup fs (locationOf R) = Some (Directory mR esR)"
      and acc: "accepted R hdr"
      and step: "extractEntry e R fs hdr p c = (fs', r)"
  shows "\<not> prefix q (targetLocation R hdr) \<Longrightarrow> stat fs' q = stat fs q"
    and "lookup fs q \<noteq> None \<Longrightarrow> q \<noteq> targetLocation R hdr \<Longrightarrow> stat fs' q = stat fs q"
    and "r = Inr k \<Longrightarrow> strict_prefix q (targetLocation R hdr) \<Longrightarrow> \<exists>m. stat fs' q = Some (IsDir m)"
    and "r = Inr k \<Longrightarrow> Typeflag hdr = TypeReg \<Longrightarrow>
           k = 1 \<and> c
         \<and> (lookup fs (targetLocation R hdr) = None
              \<or> (\<exists>m old. lookup fs (targetLocation R hdr) = Some (RegFile m old)))
         \<and> stat fs' (targetLocation R hdr)
             = Some (case lookup fs (targetLocation R hdr) of
                       Some (RegFile m old) \<Rightarrow> IsFile m (p @ drop (length p) old)
                     | _ \<Rightarrow> IsFile (creationMode e (Mode hdr)) p)"
    and "r = Inr k \<Longrightarrow> Typeflag hdr = TypeDir \<Longrightarrow>
           k = 0
         \<and> (lookup fs (targetLocation R hdr) = None
              \<or> (\<exists>m es. lookup fs (targetLocation R hdr) = Some (Directory m es)))
         \<and> stat fs' (targetLocation R hdr)
             = Some (IsDir (case lookup fs (targetLocation R hdr) of
                              Some (Directory m es) \<Rightarrow> m
                            | _ \<Rightarrow> creationMode e (Mode hdr)))"
    and "r = Inr k \<Longrightarrow> Typeflag hdr = TypeOther \<Longrightarrow>
           k = 0 \<and> stat fs' (targetLocation R hdr) = stat fs (targetLocation R hdr)"
proof -
  let ?T = "Join [R, sanitizeExtractPath Posix (Name hdr)]"
  let ?tl = "targetLocation R hdr"
  let ?par = "butlast ?tl"
  note tp = target_paths[OF R acc]
  obtain m0 es0 where rt: "fs = Directory m0 es0" using root_dir[OF root] by auto
  have vpar: "\<forall>x \<in> set ?par. validName x" using tp(3) by (meson in_set_butlastD)
  have M1: "MkdirAll e fs (Dir ?T) 493 = mkdirAll e fs ?par 493"
    unfolding tp(2) using vpar rt by (rule MkdirAll_pathOf)
  note ex = step[unfolded extractEntry_accepted[OF acc] M1]
  have npre: "\<not> prefix ?tl ?par"
    using tp(6) by (metis append_butlast_last_id prefix_order.antisym prefix_def
                      append_self_conv snoc_eq_iff_butlast prefixeq_butlast)
  have way: "\<not> prefix q ?tl \<Longrightarrow> \<not> prefix q ?par" for q
    using prefix_order.trans[OF _ prefixeq_butlast[of ?tl]] by blast
  have sway: "strict_prefix q ?tl \<Longrightarrow> prefix q ?par" for q
    using tp(6) by (metis append_butlast_last_id prefix_snoc strict_prefix_def)
  have conc:
     "(\<forall>q. \<not> prefix q ?tl \<longrightarrow> stat fs' q = stat fs q)
    \<and> (\<forall>q. lookup fs q \<noteq> None \<longrightarrow> q \<noteq> ?tl \<longrightarrow> stat fs' q = stat fs q)
    \<and> (\<forall>k. r = Inr k \<longrightarrow>
         (\<forall>q. strict_prefix q ?tl \<longrightarrow> (\<exists>m. stat fs' q = Some (IsDir m)))
       \<and> (Typeflag hdr = TypeReg \<longrightarrow>
             k = 1 \<and> c
           \<and> (lookup fs ?tl = None \<or> (\<exists>m old. lookup fs ?tl = Some (RegFile m old)))
           \<and> stat fs' ?tl = Some (case lookup fs ?tl of
                                    Some (RegFile m old) \<Rightarrow> IsFile m (p @ drop (length p) old)
                                  | _ \<Rightarrow> IsFile (creationMode e (Mode hdr)) p))
       \<and> (Typeflag hdr = TypeDir \<longrightarrow>
             k = 0
           \<and> (lookup fs ?tl = None \<or> (\<exists>m es. lookup fs ?tl = Some (Directory m es)))
           \<and> stat fs' ?tl = Some (IsDir (case lookup fs ?tl of
                                           Some (Directory m es) \<Rightarrow> m
                                         | _ \<Rightarrow> creationMode e (Mode hdr))))
       \<and> (Typeflag hdr = TypeOther \<longrightarrow> k = 0 \<and> stat fs' ?tl = stat fs ?tl))"
  proof (cases "mkdirAll e fs ?par 493")
    case (Inl err)
    then show ?thesis using ex by auto
  next
    case M: (Inr fs1)
    note e1 = mkdirAll_effect[OF M]
    have o1: "\<not> prefix q ?tl \<Longrightarrow> stat fs1 q = stat fs q" for q
      using e1(1)[of q] way[of q] by simp
    have k1: "lookup fs q \<noteq> None \<Longrightarrow> stat fs1 q = stat fs q" for q
      using e1(2)[of q] by simp
    have a1: "strict_prefix q ?tl \<Longrightarrow> \<exists>m. stat fs1 q = Some (IsDir m)" for q
      using e1(3)[of q] sway[of q] by simp
    have t1: "stat fs1 ?tl = stat fs ?tl" using e1(1)[of ?tl] npre by simp
    obtain mp esp where par1: "lookup fs1 ?par = Some (Directory mp esp)"
      using e1(3)[of ?par] by (auto simp: stat_IsDir)
    have "stat fs1 [] = stat fs []" using k1[of "[]"] by simp
    then obtain es1 where rt1: "fs1 = Directory m0 es1"
      using rt by (cases fs1) (auto simp: stat_def)
    show ?thesis
    proof (cases "Typeflag hdr")
      case TypeOther
      then have "fs' = fs1" "r = Inr 0" using ex M by simp_all
      then show ?thesis using o1 k1 a1 t1 TypeOther by auto
    next
      case TypeDir
      have M2: "MkdirAll e fs1 ?T (Mode hdr) = mkdirAll e fs1 ?tl (Mode hdr)"
        unfolding tp(1) using tp(3) rt1 by (rule MkdirAll_pathOf)
      show ?thesis
      proof (cases "mkdirAll e fs1 ?tl (Mode hdr)")
        case (Inl err)
        then have "fs' = fs1" "r = Inl (FailedCreateDirectoryAt ?T err)"
          using ex M TypeDir M2 by simp_all
        then show ?thesis using o1 k1 by auto
      next
        case D: (Inr fs2)
        then have res: "fs' = fs2" "r = Inr 0" using ex M TypeDir M2 by simp_all
        note e2 = mkdirAll_effect[OF D]
        note md = mkdirAll_mode[OF D tp(6) par1]
        have o2: "\<not> prefix q ?tl \<Longrightarrow> stat fs2 q = stat fs q" for q
          using e2(1)[of q] o1[of q] by simp
        have k2: "lookup fs q \<noteq> None \<Longrightarrow> stat fs2 q = stat fs q" for q
        proof -
          assume q: "lookup fs q \<noteq> None"
          then have "lookup fs1 q \<noteq> None" using k1[of q] stat_same_none[of fs1 q fs] by simp
          then show ?thesis using e2(2)[of q] k1[OF q] by simp
        qed
        have a2: "strict_prefix q ?tl \<Longrightarrow> \<exists>m. stat fs2 q = Some (IsDir m)" for q
          using e2(3)[of q] by (simp add: strict_prefix_def)
        have same: "(case lookup fs1 ?tl of Some (Directory m es) \<Rightarrow> m | _ \<Rightarrow> creationMode e (Mode hdr))
                  = (case lookup fs ?tl of Some (Directory m es) \<Rightarrow> m | _ \<Rightarrow> creationMode e (Mode hdr))"
          using t1 by (cases "lookup fs1 ?tl"; cases "lookup fs ?tl")
                      (auto simp: stat_def split: node.splits)
        have free: "lookup fs ?tl = None \<or> (\<exists>m es. lookup fs ?tl = Some (Directory m es))"
          using md(2) stat_same_none[OF t1] stat_same_dir[OF t1] by blast
        show ?thesis
          unfolding res using o2 k2 a2 md(1) same free TypeDir by auto
      qed
    next
      case TypeReg
      have O: "OpenFile e fs1 ?T False (Mode hdr) =
                 (case lookup fs1 ?tl of
                    Some (Directory m' es') \<Rightarrow> Inl EISDIR
                  | Some (RegFile m' b) \<Rightarrow> Inr fs1
                  | None \<Rightarrow> Inr (put fs1 ?tl (RegFile (creationMode e (Mode hdr)) [])))"
        unfolding tp(1) using OpenFile_pathOf[OF tp(3) tp(6) par1, of e False "Mode hdr"]
        by (simp split: option.splits node.splits)
      have W: "Write e fs2 ?T p =
                 (case lookup fs2 ?tl of
                    Some (RegFile m old) \<Rightarrow> put fs2 ?tl (RegFile m (p @ drop (length p) old))
                  | _ \<Rightarrow> fs2)" for fs2
        unfolding tp(1) using tp(3) tp(6) by (rule Write_pathOf)
      show ?thesis
      proof (cases "lookup fs1 ?tl")
        case None
        let ?cm = "creationMode e (Mode hdr)"
        let ?fs2 = "put fs1 ?tl (RegFile ?cm [])"
        let ?fs3 = "put ?fs2 ?tl (RegFile ?cm p)"
        have s2: "stat ?fs2 q = (if q = ?tl then Some (IsFile ?cm []) else stat fs1 q)" for q
          using put_leaf_stat[OF tp(6) par1 leaf_RegFile, of ?cm "[]" q] None by simp
        have f2: "lookup ?fs2 ?tl = Some (RegFile ?cm [])"
          using s2[of ?tl] by (simp add: stat_IsFile)
        have "stat ?fs2 ?par = Some (IsDir mp)"
          using s2[of ?par] par1 npre by (auto simp: stat_def)
        then obtain es2 where par2: "lookup ?fs2 ?par = Some (Directory mp es2)"
          by (auto simp: stat_IsDir)
        have s3: "stat ?fs3 q = (if q = ?tl then Some (IsFile ?cm p) else stat fs1 q)" for q
          using put_leaf_stat[OF tp(6) par2 leaf_RegFile, of ?cm p q] f2 s2[of q] by simp
        have res: "fs' = ?fs3" "r = (if c then Inr 1 else Inl (FailedExtractFile ?T))"
          using ex M TypeReg O None W[of ?fs2] f2 by (simp_all add: Let_def split: if_splits)
        have n0: "lookup fs ?tl = None" using None stat_same_none[OF t1] by simp
        have o3: "\<not> prefix q ?tl \<Longrightarrow> stat ?fs3 q = stat fs q" for q
          using s3[of q] o1[of q] by auto
        have k3: "lookup fs q \<noteq> None \<Longrightarrow> q \<noteq> ?tl \<Longrightarrow> stat ?fs3 q = stat fs q" for q
          using s3[of q] k1[of q] by simp
        have a3: "strict_prefix q ?tl \<Longrightarrow> \<exists>m. stat ?fs3 q = Some (IsDir m)" for q
          using s3[of q] a1[of q] by (auto simp: strict_prefix_def)
        show ?thesis
          unfolding res using o3 k3 a3 s3[of ?tl] n0 TypeReg by (auto split: if_splits)
      next
        case (Some n)
        show ?thesis
        proof (cases n)
          case (Directory m es)
          then have "fs' = fs1" "r = Inl (FailedCreateFile ?T EISDIR)"
            using ex M TypeReg O Some by simp_all
          then show ?thesis using o1 k1 by auto
        next
          case (RegFile m old)
          let ?fs3 = "put fs1 ?tl (RegFile m (p @ drop (length p) old))"
          have f1: "lookup fs1 ?tl = Some (RegFile m old)" using Some RegFile by simp
          have s3: "stat ?fs3 q = (if q = ?tl then Some (IsFile m (p @ drop (length p) old))
                                   else stat fs1 q)" for q
            using put_leaf_stat[OF tp(6) par1 leaf_RegFile, of m "p @ drop (length p) old" q] f1
            by simp
          have res: "fs' = ?fs3" "r = (if c then Inr 1 else Inl (FailedExtractFile ?T))"
            using ex M TypeReg O f1 W[of fs1] by (simp_all add: Let_def split: if_splits)
          have f0: "lookup fs ?tl = Some (RegFile m old)"
            using f1 stat_same_file[OF t1] by simp
          have o3: "\<not> prefix q ?tl \<Longrightarrow> stat ?fs3 q = stat fs q" for q
            using s3[of q] o1[of q] by auto
          have k3: "lookup fs q \<noteq> None \<Longrightarrow> q \<noteq> ?tl \<Longrightarrow> stat ?fs3 q = stat fs q" for q
            using s3[of q] k1[of q] by simp
          have a3: "strict_prefix q ?tl \<Longrightarrow> \<exists>m. stat ?fs3 q = Some (IsDir m)" for q
            using s3[of q] a1[of q] by (auto simp: strict_prefix_def)
          show ?thesis
            unfolding res using o3 k3 a3 s3[of ?tl] f0 TypeReg by (auto split: if_splits)
        qed
      qed
    qed
  qed
  show "\<not> prefix q ?tl \<Longrightarrow> stat fs' q = stat fs q" using conc by blast
  show "lookup fs q \<noteq> None \<Longrightarrow> q \<noteq> ?tl \<Longrightarrow> stat fs' q = stat fs q" using conc by blast
  show "r = Inr k \<Longrightarrow> strict_prefix q ?tl \<Longrightarrow> \<exists>m. stat fs' q = Some (IsDir m)"
    using conc by blast
  show "r = Inr k \<Longrightarrow> Typeflag hdr = TypeReg \<Longrightarrow>
           k = 1 \<and> c
         \<and> (lookup fs ?tl = None \<or> (\<exists>m old. lookup fs ?tl = Some (RegFile m old)))
         \<and> stat fs' ?tl = Some (case lookup fs ?tl of
                                  Some (RegFile m old) \<Rightarrow> IsFile m (p @ drop (length p) old)
                                | _ \<Rightarrow> IsFile (creationMode e (Mode hdr)) p)"
    using conc by blast
  show "r = Inr k \<Longrightarrow> Typeflag hdr = TypeDir \<Longrightarrow>
           k = 0
         \<and> (lookup fs ?tl = None \<or> (\<exists>m es. lookup fs ?tl = Some (Directory m es)))
         \<and> stat fs' ?tl = Some (IsDir (case lookup fs ?tl of
                                         Some (Directory m es) \<Rightarrow> m
                                       | _ \<Rightarrow> creationMode e (Mode hdr)))"
    using conc by blast
  show "r = Inr k \<Longrightarrow> Typeflag hdr = TypeOther \<Longrightarrow> k = 0 \<and> stat fs' ?tl = stat fs ?tl"
    using conc by blast
qed

lemma extractEntry_frame:
  assumes R: "R \<noteq> []" "hd R = CHR ''/''"
      and root: "lookup fs (locationOf R) = Some (Directory m es)"
      and step: "extractEntry e R fs hdr p c = (fs', r)"
  shows "unchangedOutside (locationOf R) fs fs'"
proof (cases "accepted R hdr")
  case False
  then show ?thesis using step by (simp add: extractEntry_rejected unchangedOutside_refl)
next
  case True
  note tp = target_paths[OF R True]
  note ef = extractEntry_effect[OF R root True step]
  show ?thesis
    unfolding unchangedOutside_def
  proof (intro allI impI)
    fix q
    assume q: "\<not> strict_prefix (locationOf R) q"
    show "stat fs' q = stat fs q"
    proof (cases "prefix q (targetLocation R hdr)")
      case False
      then show ?thesis by (rule ef(1))
    next
      case pq: True
      have "prefix (locationOf R) (targetLocation R hdr)" using tp(4) by (simp add: strict_prefix_def)
      with pq have "prefix q (locationOf R) \<or> prefix (locationOf R) q" by (rule prefix_same_cases)
      then have pr: "prefix q (locationOf R)" using q by (auto simp: strict_prefix_def)
      then have ex: "lookup fs q \<noteq> None" using lookup_prefix_exists[of fs "locationOf R" q] root by simp
      have "q \<noteq> targetLocation R hdr"
      proof
        assume "q = targetLocation R hdr"
        then have "prefix (targetLocation R hdr) (locationOf R)" using pr by simp
        then show False using tp(4) by (auto simp: strict_prefix_def dest: prefix_order.antisym)
      qed
      with ex show ?thesis by (rule ef(2))
    qed
  qed
qed

lemma extractEntry_root:
  assumes R: "R \<noteq> []" "hd R = CHR ''/''"
      and root: "lookup fs (locationOf R) = Some (Directory m es)"
      and step: "extractEntry e R fs hdr p c = (fs', r)"
  shows "\<exists>es'. lookup fs' (locationOf R) = Some (Directory m es')"
  using extractEntry_frame[OF R root step] root by (rule unchangedOutside_root)

lemma extractEntries_frame:
  assumes R: "R \<noteq> []" "hd R = CHR ''/''"
  shows "lookup fs (locationOf R) = Some (Directory m es) \<Longrightarrow>
         extractEntries e R fs items n = (fs', r) \<Longrightarrow>
         unchangedOutside (locationOf R) fs fs'"
proof (induction items arbitrary: fs n es)
  case Nil
  then show ?case by (simp add: unchangedOutside_refl)
next
  case (Cons item items)
  show ?case
  proof (cases item)
    case Corrupt
    then show ?thesis using Cons.prems by (simp add: unchangedOutside_refl)
  next
    case (Truncated hdr p)
    obtain fs1 r1 where s: "extractEntry e R fs hdr p False = (fs1, r1)"
      by (cases "extractEntry e R fs hdr p False") auto
    have "unchangedOutside (locationOf R) fs fs1"
      using R Cons.prems(1) s by (rule extractEntry_frame)
    then show ?thesis using Cons.prems(2) Truncated s by (auto split: sum.splits)
  next
    case (Entry hdr p)
    obtain fs1 r1 where s: "extractEntry e R fs hdr p True = (fs1, r1)"
      by (cases "extractEntry e R fs hdr p True") auto
    have u1: "unchangedOutside (locationOf R) fs fs1"
      using R Cons.prems(1) s by (rule extractEntry_frame)
    obtain es1 where root1: "lookup fs1 (locationOf R) = Some (Directory m es1)"
      using unchangedOutside_root[OF u1 Cons.prems(1)] by (elim exE)
    show ?thesis
    proof (cases r1)
      case (Inl err)
      then show ?thesis using Cons.prems(2) Entry s u1 by simp
    next
      case (Inr k)
      then have "extractEntries e R fs1 items (n + k) = (fs', r)"
        using Cons.prems(2) Entry s by simp
      with root1 have "unchangedOutside (locationOf R) fs1 fs'"
        by (rule Cons.IH)
      with u1 show ?thesis by (rule unchangedOutside_trans)
    qed
  qed
qed

lemma dropWhile_keeps: "\<not> P x \<Longrightarrow> \<exists>a'. dropWhile P (a @ x # r) = a' @ x # r"
proof (induction a)
  case Nil
  then have "dropWhile P ([] @ x # r) = [] @ x # r" by simp
  then show ?case by (intro exI)
next
  case (Cons y a)
  then obtain a' where a': "dropWhile P (a @ x # r) = a' @ x # r" by blast
  show ?case
  proof (cases "P y")
    case True
    then have "dropWhile P ((y # a) @ x # r) = a' @ x # r" using a' by simp
    then show ?thesis by (intro exI)
  next
    case False
    then have "dropWhile P ((y # a) @ x # r) = (y # a) @ x # r" by simp
    then show ?thesis by (intro exI)
  qed
qed

lemma sanitizeExtractPath_rejects_dotdot:
  assumes "Contains p ''..''"
  shows "sanitizeExtractPath os p = []"
proof -
  obtain a b where p: "p = a @ ''..'' @ b" using assms by (auto simp: Contains_iff)
  define path1 where "path1 = (if 2 \<le> length p \<and> p ! 1 = CHR '':'' then drop 2 p else p)"
  have "\<exists>a1. path1 = a1 @ CHR ''.'' # CHR ''.'' # b"
  proof (cases "2 \<le> length p \<and> p ! 1 = CHR '':''")
    case False
    then have "path1 = a @ CHR ''.'' # CHR ''.'' # b" using p by (simp add: path1_def)
    then show ?thesis by (intro exI)
  next
    case True
    have "2 \<le> length a"
    proof (rule ccontr)
      assume "\<not> 2 \<le> length a"
      then have "a = [] \<or> (\<exists>x. a = [x])"
        by (cases a) (auto simp: not_le less_Suc_eq)
      then have "p ! 1 = CHR ''.''"
        using p by auto
      then show False using True by simp
    qed
    then have "path1 = drop 2 a @ CHR ''.'' # CHR ''.'' # b"
      using True p by (simp add: path1_def)
    then show ?thesis by (intro exI)
  qed
  then obtain a1 where a1: "path1 = a1 @ CHR ''.'' # CHR ''.'' # b" by (elim exE)
  obtain a2 where a2: "TrimLeft path1 [CHR ''/'', Backslash] = a2 @ CHR ''.'' # CHR ''.'' # b"
    unfolding TrimLeft_def a1
    using dropWhile_keeps[of "\<lambda>c. c \<in> set [CHR ''/'', Backslash]" "CHR ''.''" a1 "CHR ''.'' # b"]
    by auto
  have "Contains (TrimLeft path1 [CHR ''/'', Backslash]) ''..''"
    unfolding a2 Contains_iff by (intro exI[of _ a2] exI[of _ b]) simp
  then show ?thesis
    unfolding sanitizeExtractPath_def Let_def path1_def[symmetric] by simp
qed

lemma Join_cwd_rooted:
  assumes "cwd \<noteq> []" "hd cwd = CHR ''/''"
  shows "Join [cwd, out] \<noteq> []" and "hd (Join [cwd, out]) = CHR ''/''"
    and "Join [cwd, out] = pathOf (locationOf (Join [cwd, out]))"
proof -
  have r: "cwd @ CHR ''/'' # out \<noteq> []" "hd (cwd @ CHR ''/'' # out) = CHR ''/''"
    using assms by auto
  have J: "Join [cwd, out] = Clean (cwd @ CHR ''/'' # out)" using assms(1) by (rule Join2)
  also have "\<dots> = CHR ''/'' # joinc (CHR ''/'') (locationOf (cwd @ CHR ''/'' # out))"
    using r by (rule Clean_rooted)
  finally have C: "Join [cwd, out] = pathOf (locationOf (cwd @ CHR ''/'' # out))"
    by (simp add: pathOf_def)
  then show "Join [cwd, out] \<noteq> []" and "hd (Join [cwd, out]) = CHR ''/''"
    by (simp_all add: pathOf_def)
  have "locationOf (Join [cwd, out]) = locationOf (cwd @ CHR ''/'' # out)"
    unfolding J using r by (rule locationOf_Clean)
  then show "Join [cwd, out] = pathOf (locationOf (Join [cwd, out]))" using C by simp
qed

text \<open>In a tree whose root is a regular file no path leads anywhere.\<close>

lemma locate_RegFile: "\<exists>err. locate e (RegFile m b) path = Inl err"
proof (cases "path = []")
  case True
  then show ?thesis by (simp add: locate_def)
next
  case False
  have n: "\<exists>err. namei (RegFile m b) [] cs = Inl err" if "cs \<noteq> []" for cs
    using that by (cases cs) auto
  show ?thesis
    using False n[OF splitc_nonempty] by (auto simp: locate_def split: option.splits)
qed

lemma Stat_RegFile: "Stat e (RegFile m b) path = None"
  using locate_RegFile[of e m b path] by (auto simp: Stat_def)

lemma MkdirAll_RegFile: "\<exists>err. MkdirAll e (RegFile m b) path perm = Inl err"
proof (induction e "RegFile m b" path perm rule: MkdirAll.induct)
  case (1 e path perm)
  let ?parent = "rev (drop 1 (dropWhile (\<lambda>c. c \<noteq> CHR ''/'')
                   (dropWhile (\<lambda>c. c = CHR ''/'') (rev path))))"
  have mk: "\<exists>err. Mkdir e (RegFile m b) path perm = Inl err"
    using locate_RegFile[of e m b "if TrimRight path ''/'' = [] then path else TrimRight path ''/''"]
    by (auto simp: Mkdir_def)
  show ?case
  proof (cases "?parent \<noteq> []")
    case True
    obtain err where "MkdirAll e (RegFile m b) ?parent perm = Inl err"
      using "1.hyps"[OF Stat_RegFile True] by auto
    then show ?thesis
      using True by (simp add: MkdirAll.simps[of e "RegFile m b" path perm] Stat_RegFile)
  next
    case False
    obtain err where "Mkdir e (RegFile m b) path perm = Inl err" using mk by auto
    then show ?thesis
      using False by (simp add: MkdirAll.simps[of e "RegFile m b" path perm] Stat_RegFile)
  qed
qed

lemma remove_root: "\<exists>es'. remove (Directory m es) loc = Directory m es'"
  by (cases "(Directory m es, loc)" rule: remove.cases) (auto split: option.splits)

lemma decompressFile_frame:
  assumes cwd: "Getwd e = Some cwd" "cwd \<noteq> []" "hd cwd = CHR ''/''"
      and run: "decompressFile e cdc fs archiveFile outputDir = (fs', r)"
      and q: "\<not> prefix (locationOf (Join [cwd, outputDir])) q"
             "lookup fs q \<noteq> None \<or> \<not> prefix q (locationOf (Join [cwd, outputDir]))"
  shows "stat fs' q = stat fs q"
proof (cases fs)
  case (RegFile m b)
  obtain err where "MkdirAll e (RegFile m b) (Join [cwd, outputDir]) 493 = Inl err"
    using MkdirAll_RegFile by blast
  then have "fs' = fs"
    using run cwd(1) RegFile by (simp add: decompressFile_def Let_def Stat_RegFile)
  then show ?thesis by simp
next
  case (Directory m0 es0)
  let ?R = "Join [cwd, outputDir]"
  let ?root = "locationOf ?R"
  note R = Join_cwd_rooted[OF cwd(2,3), of outputDir]
  have v: "\<forall>x \<in> set ?root. validName x" by (rule locationOf_valid)
  have St: "Stat e fs ?R = lookup fs ?root"
    using Stat_pathOf[OF v, of fs e] Directory R(3) by simp
  define fs1 where "fs1 = (case Stat e fs ?R of Some n \<Rightarrow> RemoveAll e fs ?R | None \<Rightarrow> fs)"
  have fs1: "fs1 = fs \<or> fs1 = remove fs ?root"
  proof (cases "Stat e fs ?R")
    case None
    then show ?thesis by (simp add: fs1_def)
  next
    case (Some n)
    then have "Stat e fs (pathOf ?root) = Some n" using R(3) by simp
    then have "RemoveAll e fs (pathOf ?root) = remove fs ?root" using v by (intro RemoveAll_pathOf)
    then show ?thesis using Some R(3) by (simp add: fs1_def)
  qed
  have s1: "stat fs1 q = stat fs q"
    using fs1 q(1) by (auto simp: stat_remove_frame)
  obtain es1 where rt1: "fs1 = Directory m0 es1"
    using fs1 Directory remove_root[of m0 es0 ?root] by auto
  have M: "MkdirAll e fs1 ?R 493 = mkdirAll e fs1 ?root 493"
    using MkdirAll_pathOf[OF v rt1, of e 493] R(3) by simp
  have run': "(case mkdirAll e fs1 ?root 493 of
                Inl err \<Rightarrow> (fs1, Inl (FailedCreateOutputDirectory err))
              | Inr fs2 \<Rightarrow>
                  (case Open e fs2 archiveFile of
                     None \<Rightarrow> (fs2, Inl FailedOpenArchive)
                   | Some (Directory m es) \<Rightarrow> (fs2, Inl FailedReadTarHeader)
                   | Some (RegFile m content) \<Rightarrow>
                       (case NewReader cdc content of
                          None \<Rightarrow> (fs2, Inl FailedCreateDecoder)
                        | Some items \<Rightarrow> extractEntries e ?R fs2 items 0))) = (fs', r)"
    using run unfolding decompressFile_def cwd(1) option.case Let_def fs1_def[symmetric] M
    by simp
  show ?thesis
  proof (cases "mkdirAll e fs1 ?root 493")
    case (Inl err)
    then show ?thesis using run' s1 by simp
  next
    case (Inr fs2)
    note props = mkdirAll_props[OF Inr]
    have s2: "stat fs2 q = stat fs1 q"
    proof (cases "lookup fs1 q")
      case (Some n)
      then show ?thesis using props by simp
    next
      case None
      then have "lookup fs q = None" using s1 by (simp add: stat_def)
      then have "\<not> prefix q ?root" using q(2) by simp
      then have "lookup fs2 q = None" using props None by blast
      then show ?thesis using None by (simp add: stat_def)
    qed
    obtain m es where root2: "lookup fs2 ?root = Some (Directory m es)"
      using props by blast
    have ns: "\<not> strict_prefix ?root q" using q(1) by (simp add: strict_prefix_def)
    show ?thesis
    proof (cases "Open e fs2 archiveFile")
      case None
      then show ?thesis using run' Inr s1 s2 by simp
    next
      case (Some a)
      show ?thesis
      proof (cases a)
        case (Directory ma esa)
        then show ?thesis using run' Inr Some s1 s2 by simp
      next
        case (RegFile ma content)
        show ?thesis
        proof (cases "NewReader cdc content")
          case None
          then show ?thesis using run' Inr Some RegFile s1 s2 by simp
        next
          case items: (Some items)
          have "extractEntries e ?R fs2 items 0 = (fs', r)"
            using run' Inr Some RegFile items by simp
          with R(1,2) root2 have "unchangedOutside ?root fs2 fs'"
            by (rule extractEntries_frame)
          then have "stat fs' q = stat fs2 q" using ns by (simp add: unchangedOutside_def)
          then show ?thesis using s1 s2 by simp
        qed
      qed
    qed
  qed
qed

lemma extractEntries_skip:
  "\<not> accepted R hdr \<Longrightarrow>
   extractEntries e R fs (Entry hdr payload # rest) n = extractEntries e R fs rest n"
  by (simp add: extractEntry_rejected)

lemma not_accepted_dotdot: "Contains (Name hdr) ''..'' \<Longrightarrow> \<not> accepted R hdr"
  by (simp add: accepted_def sanitizeExtractPath_rejects_dotdot)

lemma extractEntry_count:
  assumes "extractEntry e R fs hdr p c = (fs1, Inr k)"
  shows "k = (if accepted R hdr \<and> Typeflag hdr = TypeReg then 1 else 0)"
proof (cases "accepted R hdr")
  case False
  then show ?thesis using assms by (simp add: extractEntry_rejected)
next
  case True
  show ?thesis
    using assms True unfolding extractEntry_accepted[OF True]
    by (auto simp: Let_def split: sum.splits typeflag.splits if_splits)
qed

lemma extractEntries_count:
  "extractEntries e R fs items n = (fs', Inr (k, r)) \<Longrightarrow>
   k = n + int (length (filter (counted R) items)) \<and> r = R"
proof (induction items arbitrary: fs n)
  case Nil
  then show ?case by simp
next
  case (Cons item items)
  show ?case
  proof (cases item)
    case Corrupt
    then show ?thesis using Cons.prems by simp
  next
    case (Truncated hdr p)
    then show ?thesis using Cons.prems by (auto split: prod.splits sum.splits)
  next
    case (Entry hdr p)
    obtain fs1 r1 where s: "extractEntry e R fs hdr p True = (fs1, r1)"
      by (cases "extractEntry e R fs hdr p True") auto
    show ?thesis
    proof (cases r1)
      case (Inl err)
      then show ?thesis using Cons.prems Entry s by simp
    next
      case (Inr j)
      have j: "j = (if counted R item then 1 else 0)"
        using extractEntry_count[of e R fs hdr p True fs1 j] s Inr Entry
        by (simp add: counted_def)
      have "extractEntries e R fs1 items (n + j) = (fs', Inr (k, r))"
        using Cons.prems Entry s Inr by simp
      then have "k = (n + j) + int (length (filter (counted R) items)) \<and> r = R"
        by (rule Cons.IH)
      then show ?thesis using j by simp
    qed
  qed
qed

section \<open>Facts about whole runs of the loop\<close>

lemma extractEntries_append:
  "extractEntries e R fs (pre @ post) n =
     (case extractEntries e R fs pre n of
        (fs1, Inl err) \<Rightarrow> (fs1, Inl err)
      | (fs1, Inr (k, r)) \<Rightarrow> extractEntries e R fs1 post k)"
proof (induction pre arbitrary: fs n)
  case Nil
  then show ?case by simp
next
  case (Cons item pre)
  show ?case
  proof (cases item)
    case Corrupt
    then show ?thesis by simp
  next
    case (Truncated hdr p)
    then show ?thesis by (simp split: prod.splits sum.splits)
  next
    case (Entry hdr p)
    obtain fs1 r1 where s: "extractEntry e R fs hdr p True = (fs1, r1)"
      by (cases "extractEntry e R fs hdr p True") auto
    show ?thesis
    proof (cases r1)
      case (Inl err)
      then show ?thesis using Entry s by simp
    next
      case (Inr k)
      then show ?thesis using Entry s Cons.IH[of fs1 "n + k"] by simp
    qed
  qed
qed

lemma extractEntries_Cons_ok:
  assumes "extractEntries e R fs (item # rest) n = (fs', Inr res)"
  obtains hdr p fs1 k where "item = Entry hdr p"
    and "extractEntry e R fs hdr p True = (fs1, Inr k)"
    and "extractEntries e R fs1 rest (n + k) = (fs', Inr res)"
proof (cases item)
  case Corrupt
  then show ?thesis using assms by simp
next
  case (Truncated hdr p)
  then show ?thesis using assms by (auto split: prod.splits sum.splits)
next
  case (Entry hdr p)
  obtain fs1 r1 where s: "extractEntry e R fs hdr p True = (fs1, r1)"
    by (cases "extractEntry e R fs hdr p True") auto
  show ?thesis
  proof (cases r1)
    case (Inl err)
    then show ?thesis using assms Entry s by simp
  next
    case (Inr k)
    then show ?thesis using assms Entry s that by simp
  qed
qed

lemma file_stays_step:
  assumes R: "R \<noteq> []" "hd R = CHR ''/''"
      and root: "lookup fs (locationOf R) = Some (Directory mR esR)"
      and step: "extractEntry e R fs hdr p c = (fs1, Inr k)"
      and f: "stat fs l = Some (IsFile m b)"
      and nw: "\<not> writes R l (Entry hdr p)"
  shows "stat fs1 l = Some (IsFile m b)"
proof (cases "accepted R hdr")
  case False
  then show ?thesis using step f by (simp add: extractEntry_rejected)
next
  case True
  note ef = extractEntry_effect[OF R root True step]
  have ex: "lookup fs l \<noteq> None" using f by (auto simp: stat_def)
  show ?thesis
  proof (cases "targetLocation R hdr = l")
    case False
    then have "stat fs1 l = stat fs l" using ef(2)[OF ex] by simp
    then show ?thesis using f by simp
  next
    case tl: True
    show ?thesis
    proof (cases "Typeflag hdr")
      case TypeReg
      then show ?thesis using nw True tl by (simp add: writes_def)
    next
      case TypeDir
      then show ?thesis using ef(5)[OF refl TypeDir] f tl by (auto simp: stat_IsFile)
    next
      case TypeOther
      then show ?thesis using ef(6)[OF refl TypeOther] f tl by simp
    qed
  qed
qed

lemma dir_stays_step:
  assumes R: "R \<noteq> []" "hd R = CHR ''/''"
      and root: "lookup fs (locationOf R) = Some (Directory mR esR)"
      and step: "extractEntry e R fs hdr p c = (fs1, Inr k)"
      and d: "stat fs l = Some (IsDir m)"
  shows "stat fs1 l = Some (IsDir m)"
proof (cases "accepted R hdr")
  case False
  then show ?thesis using step d by (simp add: extractEntry_rejected)
next
  case True
  note ef = extractEntry_effect[OF R root True step]
  obtain es where l: "lookup fs l = Some (Directory m es)" using d by (auto simp: stat_IsDir)
  show ?thesis
  proof (cases "targetLocation R hdr = l")
    case False
    then have "stat fs1 l = stat fs l" using ef(2)[of l] l by simp
    then show ?thesis using d by simp
  next
    case tl: True
    show ?thesis
    proof (cases "Typeflag hdr")
      case TypeReg
      then show ?thesis using ef(4)[OF refl TypeReg] l tl by auto
    next
      case TypeDir
      then show ?thesis using ef(5)[OF refl TypeDir] l tl by auto
    next
      case TypeOther
      then show ?thesis using ef(6)[OF refl TypeOther] d tl by simp
    qed
  qed
qed

lemma file_origin_step:
  assumes R: "R \<noteq> []" "hd R = CHR ''/''"
      and root: "lookup fs (locationOf R) = Some (Directory mR esR)"
      and step: "extractEntry e R fs hdr p c = (fs1, Inr k)"
      and f: "stat fs1 l = Some (IsFile m b)"
  shows "(\<exists>m' b'. stat fs l = Some (IsFile m' b')) \<or> writes R l (Entry hdr p)"
proof (cases "accepted R hdr")
  case False
  then show ?thesis using step f by (simp add: extractEntry_rejected)
next
  case True
  note ef = extractEntry_effect[OF R root True step]
  show ?thesis
  proof (cases "targetLocation R hdr = l")
    case tl: True
    show ?thesis
    proof (cases "Typeflag hdr")
      case TypeReg
      then show ?thesis using True tl by (simp add: writes_def)
    next
      case TypeDir
      then show ?thesis using ef(5)[OF refl TypeDir] f tl by auto
    next
      case TypeOther
      then have "stat fs l = Some (IsFile m b)" using ef(6)[OF refl TypeOther] f tl by simp
      then show ?thesis by blast
    qed
  next
    case ne: False
    show ?thesis
    proof (cases "lookup fs l")
      case (Some n)
      then have "stat fs1 l = stat fs l" using ef(2)[of l] ne by simp
      then have "stat fs l = Some (IsFile m b)" using f by simp
      then show ?thesis by blast
    next
      case None
      show ?thesis
      proof (cases "prefix l (targetLocation R hdr)")
        case False
        then have "stat fs1 l = stat fs l" by (rule ef(1))
        then show ?thesis using f None by (simp add: stat_def)
      next
        case True
        then have "strict_prefix l (targetLocation R hdr)" using ne by (simp add: strict_prefix_def)
        then show ?thesis using ef(3)[OF refl, of l] f by auto
      qed
    qed
  qed
qed

lemma file_stays:
  assumes R: "R \<noteq> []" "hd R = CHR ''/''"
  shows "lookup fs (locationOf R) = Some (Directory mR esR) \<Longrightarrow>
         extractEntries e R fs items n = (fs', Inr res) \<Longrightarrow>
         stat fs l = Some (IsFile m b) \<Longrightarrow>
         \<forall>item \<in> set items. \<not> writes R l item \<Longrightarrow>
         stat fs' l = Some (IsFile m b)"
proof (induction items arbitrary: fs n esR)
  case Nil
  then show ?case by simp
next
  case (Cons item items)
  from Cons.prems(2) obtain hdr p fs1 k where it: "item = Entry hdr p"
    and s: "extractEntry e R fs hdr p True = (fs1, Inr k)"
    and rest: "extractEntries e R fs1 items (n + k) = (fs', Inr res)"
    by (rule extractEntries_Cons_ok)
  obtain es1 where root1: "lookup fs1 (locationOf R) = Some (Directory mR es1)"
    using extractEntry_root[OF R Cons.prems(1) s] by auto
  have nw: "\<not> writes R l (Entry hdr p)" using Cons.prems(4) it by simp
  have f1: "stat fs1 l = Some (IsFile m b)"
    using R Cons.prems(1) s Cons.prems(3) nw by (rule file_stays_step)
  show ?case
    using root1 rest f1 Cons.prems(4) by (intro Cons.IH[of fs1]) auto
qed

lemma dir_stays:
  assumes R: "R \<noteq> []" "hd R = CHR ''/''"
  shows "lookup fs (locationOf R) = Some (Directory mR esR) \<Longrightarrow>
         extractEntries e R fs items n = (fs', Inr res) \<Longrightarrow>
         stat fs l = Some (IsDir m) \<Longrightarrow>
         stat fs' l = Some (IsDir m)"
proof (induction items arbitrary: fs n esR)
  case Nil
  then show ?case by simp
next
  case (Cons item items)
  from Cons.prems(2) obtain hdr p fs1 k where it: "item = Entry hdr p"
    and s: "extractEntry e R fs hdr p True = (fs1, Inr k)"
    and rest: "extractEntries e R fs1 items (n + k) = (fs', Inr res)"
    by (rule extractEntries_Cons_ok)
  obtain es1 where root1: "lookup fs1 (locationOf R) = Some (Directory mR es1)"
    using extractEntry_root[OF R Cons.prems(1) s] by auto
  have d1: "stat fs1 l = Some (IsDir m)"
    using R Cons.prems(1) s Cons.prems(3) by (rule dir_stays_step)
  show ?case
    using root1 rest d1 by (rule Cons.IH)
qed

lemma file_origin:
  assumes R: "R \<noteq> []" "hd R = CHR ''/''"
  shows "lookup fs (locationOf R) = Some (Directory mR esR) \<Longrightarrow>
         extractEntries e R fs items n = (fs', Inr res) \<Longrightarrow>
         stat fs' l = Some (IsFile m b) \<Longrightarrow>
         (\<exists>m' b'. stat fs l = Some (IsFile m' b')) \<or> (\<exists>item \<in> set items. writes R l item)"
proof (induction items arbitrary: fs n esR)
  case Nil
  then show ?case by auto
next
  case (Cons item items)
  from Cons.prems(2) obtain hdr p fs1 k where it: "item = Entry hdr p"
    and s: "extractEntry e R fs hdr p True = (fs1, Inr k)"
    and rest: "extractEntries e R fs1 items (n + k) = (fs', Inr res)"
    by (rule extractEntries_Cons_ok)
  obtain es1 where root1: "lookup fs1 (locationOf R) = Some (Directory mR es1)"
    using extractEntry_root[OF R Cons.prems(1) s] by auto
  have "(\<exists>m' b'. stat fs1 l = Some (IsFile m' b')) \<or> (\<exists>item \<in> set items. writes R l item)"
    using root1 rest Cons.prems(3) by (rule Cons.IH)
  then show ?case
  proof
    assume "\<exists>m' b'. stat fs1 l = Some (IsFile m' b')"
    then obtain m' b' where "stat fs1 l = Some (IsFile m' b')" by auto
    then have "(\<exists>m' b'. stat fs l = Some (IsFile m' b')) \<or> writes R l (Entry hdr p)"
      using R Cons.prems(1) s by (intro file_origin_step)
    then show ?thesis using it by auto
  next
    assume "\<exists>item \<in> set items. writes R l item"
    then show ?thesis by auto
  qed
qed

text \<open>
  What a run that ends without an error leaves at the target of one of its entries: a
  regular entry that no later entry of the stream writes to again leaves its bytes there,
  on top of what a file that was there held beyond them; when nothing was at the target
  before the run and no earlier entry writes to it, the file holds the bytes and has the
  mode of the entry. A directory entry leaves a directory.
\<close>

lemma extractEntries_content:
  assumes R: "R \<noteq> []" "hd R = CHR ''/''"
      and root: "lookup fs (locationOf R) = Some (Directory mR esR)"
      and run: "extractEntries e R fs (pre @ Entry hdr p # post) n = (fs', Inr res)"
      and acc: "accepted R hdr"
  shows "Typeflag hdr = TypeReg \<Longrightarrow>
         \<forall>item \<in> set post. \<not> writes R (targetLocation R hdr) item \<Longrightarrow>
         \<exists>m old. stat fs' (targetLocation R hdr) = Some (IsFile m (p @ drop (length p) old))"
    and "Typeflag hdr = TypeReg \<Longrightarrow>
         \<forall>item \<in> set post. \<not> writes R (targetLocation R hdr) item \<Longrightarrow>
         lookup fs (targetLocation R hdr) = None \<Longrightarrow>
         \<forall>item \<in> set pre. \<not> writes R (targetLocation R hdr) item \<Longrightarrow>
         stat fs' (targetLocation R hdr) = Some (IsFile (creationMode e (Mode hdr)) p)"
    and "Typeflag hdr = TypeDir \<Longrightarrow> \<exists>m. stat fs' (targetLocation R hdr) = Some (IsDir m)"
proof -
  let ?tl = "targetLocation R hdr"
  obtain fsP kP rP where preR: "extractEntries e R fs pre n = (fsP, Inr (kP, rP))"
    and postR: "extractEntries e R fsP (Entry hdr p # post) kP = (fs', Inr res)"
    using run unfolding extractEntries_append[of e R fs pre "Entry hdr p # post" n]
    by (auto split: prod.splits sum.splits)
  obtain esP where rootP: "lookup fsP (locationOf R) = Some (Directory mR esP)"
    using unchangedOutside_root[OF extractEntries_frame[OF R root preR] root] by auto
  from postR obtain hdr' p' fsQ k where it: "Entry hdr p = Entry hdr' p'"
    and s: "extractEntry e R fsP hdr' p' True = (fsQ, Inr k)"
    and rest: "extractEntries e R fsQ post (kP + k) = (fs', Inr res)"
    by (rule extractEntries_Cons_ok)
  have s': "extractEntry e R fsP hdr p True = (fsQ, Inr k)" using it s by simp
  obtain esQ where rootQ: "lookup fsQ (locationOf R) = Some (Directory mR esQ)"
    using extractEntry_root[OF R rootP s'] by auto
  note ef = extractEntry_effect[OF R rootP acc s']
  {
    assume reg: "Typeflag hdr = TypeReg"
       and last: "\<forall>item \<in> set post. \<not> writes R ?tl item"
    note e4 = ef(4)[OF refl reg]
    define a where "a = (case lookup fsP ?tl of
                           Some (RegFile m old) \<Rightarrow> IsFile m (p @ drop (length p) old)
                         | _ \<Rightarrow> IsFile (creationMode e (Mode hdr)) p)"
    have sQ: "stat fsQ ?tl = Some a" using e4 by (simp add: a_def)
    have af: "\<exists>m old. a = IsFile m (p @ drop (length p) old)"
    proof (cases "lookup fsP ?tl")
      case None
      then have "a = IsFile (creationMode e (Mode hdr)) (p @ drop (length p) [])"
        by (simp add: a_def)
      then show ?thesis by blast
    next
      case (Some nd)
      then obtain m old where "lookup fsP ?tl = Some (RegFile m old)" using e4 by auto
      then have "a = IsFile m (p @ drop (length p) old)" by (simp add: a_def)
      then show ?thesis by blast
    qed
    then obtain m old where a: "a = IsFile m (p @ drop (length p) old)" by auto
    have "stat fs' ?tl = Some (IsFile m (p @ drop (length p) old))"
      using rootQ rest sQ[unfolded a] last by (rule file_stays[OF R])
    then have 1: "\<exists>m old. stat fs' ?tl = Some (IsFile m (p @ drop (length p) old))" by blast
    {
      assume fresh: "lookup fs ?tl = None"
         and first: "\<forall>item \<in> set pre. \<not> writes R ?tl item"
      have "lookup fsP ?tl = None"
      proof (cases "lookup fsP ?tl")
        case None
        then show ?thesis .
      next
        case (Some nd)
        then obtain m' old' where "lookup fsP ?tl = Some (RegFile m' old')" using e4 by auto
        then have "stat fsP ?tl = Some (IsFile m' old')" by (simp add: stat_def)
        then have "(\<exists>m' b'. stat fs ?tl = Some (IsFile m' b'))
                   \<or> (\<exists>item \<in> set pre. writes R ?tl item)"
          using root preR by (intro file_origin[OF R])
        then show ?thesis using fresh first by (auto simp: stat_def)
      qed
      then have "a = IsFile (creationMode e (Mode hdr)) p" by (simp add: a_def)
      then have "stat fsQ ?tl = Some (IsFile (creationMode e (Mode hdr)) p)" using sQ by simp
      with rootQ rest have "stat fs' ?tl = Some (IsFile (creationMode e (Mode hdr)) p)"
        using last by (rule file_stays[OF R])
    }
    note 1 this
  }
  note regular = this
  show "Typeflag hdr = TypeReg \<Longrightarrow>
         \<forall>item \<in> set post. \<not> writes R ?tl item \<Longrightarrow>
         \<exists>m old. stat fs' ?tl = Some (IsFile m (p @ drop (length p) old))"
    using regular(1) by blast
  show "Typeflag hdr = TypeReg \<Longrightarrow>
         \<forall>item \<in> set post. \<not> writes R ?tl item \<Longrightarrow>
         lookup fs ?tl = None \<Longrightarrow>
         \<forall>item \<in> set pre. \<not> writes R ?tl item \<Longrightarrow>
         stat fs' ?tl = Some (IsFile (creationMode e (Mode hdr)) p)"
    using regular(2) by blast
  show "\<exists>m. stat fs' ?tl = Some (IsDir m)" if dir: "Typeflag hdr = TypeDir"
  proof -
    obtain m where "stat fsQ ?tl = Some (IsDir m)" using ef(5)[OF refl dir] by auto
    with rootQ rest have "stat fs' ?tl = Some (IsDir m)" by (rule dir_stays[OF R])
    then show ?thesis by blast
  qed
qed

section \<open>Facts about what is accepted\<close>

lemma TrimLeft_seps:
  "set seps \<subseteq> set cs \<Longrightarrow> TrimLeft (seps @ q) cs = TrimLeft q cs"
  by (induction seps) (auto simp: TrimLeft_def)

lemma sanitizeExtractPath_leading_separators:
  assumes seps: "seps \<noteq> []" "set seps \<subseteq> {CHR ''/'', Backslash}"
      and q: "CHR '':'' \<notin> set (take 2 q)"
  shows "sanitizeExtractPath os (seps @ q) = sanitizeExtractPath os q"
proof -
  obtain s ss where s: "seps = s # ss" using seps(1) by (cases seps) auto
  have q0: "q \<noteq> [] \<Longrightarrow> q ! 0 \<noteq> CHR '':''"
    using q by (cases q) auto
  have q1: "\<not> (2 \<le> length q \<and> q ! 1 = CHR '':'')"
  proof
    assume a: "2 \<le> length q \<and> q ! 1 = CHR '':''"
    then obtain a b r where "q = a # b # r" by (cases q; cases "tl q") auto
    then show False using a q by simp
  qed
  have p1: "\<not> (2 \<le> length (seps @ q) \<and> (seps @ q) ! 1 = CHR '':'')"
  proof (cases ss)
    case Nil
    then show ?thesis using s q0 by (cases q) auto
  next
    case (Cons t ts)
    then have "(seps @ q) ! 1 = t" and "t \<in> set seps" using s by simp_all
    then show ?thesis using seps(2) by auto
  qed
  have t: "TrimLeft (seps @ q) [CHR ''/'', Backslash] = TrimLeft q [CHR ''/'', Backslash]"
    using seps(2) by (intro TrimLeft_seps) auto
  show ?thesis
    by (simp only: sanitizeExtractPath_def Let_def if_not_P[OF p1] if_not_P[OF q1] t)
qed

lemma sanitizeExtractPath_drive:
  assumes "\<not> (2 \<le> length q \<and> q ! 1 = CHR '':'')"
  shows "sanitizeExtractPath os (d # CHR '':'' # q) = sanitizeExtractPath os q"
proof -
  have p1: "2 \<le> length (d # CHR '':'' # q) \<and> (d # CHR '':'' # q) ! 1 = CHR '':''" by simp
  have d: "drop 2 (d # CHR '':'' # q) = q" by simp
  show ?thesis
    by (simp only: sanitizeExtractPath_def Let_def if_P[OF p1] if_not_P[OF assms] d)
qed

lemma extractEntry_Name:
  assumes "sanitizeExtractPath Posix (Name hdr) = sanitizeExtractPath Posix (Name hdr')"
      and "Typeflag hdr = Typeflag hdr'" and "Mode hdr = Mode hdr'"
  shows "extractEntry e R fs hdr p c = extractEntry e R fs hdr' p c"
  unfolding extractEntry_def assms by (rule refl)

lemma accepted_iff:
  assumes R: "R \<noteq> []" "hd R = CHR ''/''"
  shows "accepted R hdr \<longleftrightarrow>
           locationOf R \<noteq> []
         \<and> (\<exists>x \<in> set (splitc (CHR ''/'') (sanitizeExtractPath Posix (Name hdr))).
               x \<noteq> [] \<and> x \<noteq> ''.'')"
proof -
  let ?c = "sanitizeExtractPath Posix (Name hdr)"
  let ?xs = "filter (\<lambda>x. x \<noteq> [] \<and> x \<noteq> ''.'') (splitc (CHR ''/'') ?c)"
  have nd: "\<not> Contains ?c ''..''" by (rule sanitizeExtractPath_no_dotdot)
  have v: "\<forall>x \<in> set ?xs. validName x" using splitc_no_dotdot[OF nd] by (rule elems_valid)
  have J: "Join [R, ?c] = CHR ''/'' # joinc (CHR ''/'') (locationOf R @ ?xs)"
    using R nd by (rule Join_target(1))
  have C: "Clean R = CHR ''/'' # joinc (CHR ''/'') (locationOf R)" using R by (rule Clean_rooted)
  have ex: "(\<exists>x \<in> set (splitc (CHR ''/'') ?c). x \<noteq> [] \<and> x \<noteq> ''.'') \<longleftrightarrow> ?xs \<noteq> []"
    by (auto simp: filter_empty_conv)
  show ?thesis
  proof
    assume acc: "accepted R hdr"
    note tf = target_facts[OF R acc]
    have chk: "HasPrefix (Join [R, ?c]) (Clean R @ [CHR ''/''])"
      using acc by (simp add: accepted_def)
    have "locationOf R \<noteq> []"
    proof
      assume e: "locationOf R = []"
      obtain b where "joinc (CHR ''/'') ?xs = CHR ''/'' # b"
        using chk unfolding J C e HasPrefix_iff by auto
      then show False using joinc_hd_not_sep[OF tf(1) v] by simp
    qed
    then show "locationOf R \<noteq> [] \<and> (\<exists>x \<in> set (splitc (CHR ''/'') ?c). x \<noteq> [] \<and> x \<noteq> ''.'')"
      using tf(1) ex by simp
  next
    assume a: "locationOf R \<noteq> [] \<and> (\<exists>x \<in> set (splitc (CHR ''/'') ?c). x \<noteq> [] \<and> x \<noteq> ''.'')"
    then have ne: "?xs \<noteq> []" using ex by simp
    have cne: "?c \<noteq> []"
    proof
      assume "?c = []"
      then have "splitc (CHR ''/'') ?c = [[]]" by simp
      then show False using a by simp
    qed
    have "Join [R, ?c] = (Clean R @ [CHR ''/'']) @ joinc (CHR ''/'') ?xs"
      unfolding J C using a ne by (simp add: joinc_append)
    then have "HasPrefix (Join [R, ?c]) (Clean R @ [CHR ''/''])"
      unfolding HasPrefix_iff by (intro exI)
    then show "accepted R hdr" using cne by (simp add: accepted_def)
  qed
qed

lemma mkdirAll_fresh:
  assumes dir: "lookup fs L = Some (Directory m es)"
  shows "(\<And>q. strict_prefix L q \<Longrightarrow> prefix q (L @ ys) \<Longrightarrow> lookup fs q = None) \<Longrightarrow>
         \<exists>fs1. mkdirAll e fs (L @ ys) perm = Inr fs1"
proof (induction ys rule: rev_induct)
  case Nil
  then show ?case using dir by (simp add: mkdirAll_existing)
next
  case (snoc z zs)
  let ?loc = "L @ zs @ [z]"
  have none: "lookup fs ?loc = None"
    by (rule snoc.prems) (simp_all add: strict_prefix_def)
  obtain fs1 where par: "mkdirAll e fs (L @ zs) perm = Inr fs1"
  proof -
    have "\<exists>fs1. mkdirAll e fs (L @ zs) perm = Inr fs1"
    proof (rule snoc.IH)
      fix q
      assume "strict_prefix L q" and "prefix q (L @ zs)"
      then show "lookup fs q = None"
        using snoc.prems[of q] by (simp add: prefix_def) (metis append.assoc)
    qed
    then show ?thesis using that by blast
  qed
  note props = mkdirAll_props[OF par]
  have P: "(if butlast ?loc \<noteq> [] then mkdirAll e fs (butlast ?loc) perm else Inr fs) = Inr fs1"
  proof (cases "L @ zs = []")
    case True
    then have "mkdirAll e fs (L @ zs) perm = Inr fs" using dir by (simp add: mkdirAll_existing)
    then show ?thesis using par True by (simp add: butlast_append)
  next
    case False
    then show ?thesis using par by (simp add: butlast_append)
  qed
  obtain mp esp where pd: "lookup fs1 (L @ zs) = Some (Directory mp esp)" using props by blast
  have "\<not> prefix ?loc (L @ zs)" by (simp add: prefix_def)
  then have n1: "lookup fs1 ?loc = None" using props none by blast
  have mk: "mkdir e fs1 ?loc perm = Inr (put fs1 ?loc (Directory (creationMode e perm) []))"
    using pd n1 by (simp add: mkdir_def butlast_append)
  have "mkdirAll e fs ?loc perm = Inr (put fs1 ?loc (Directory (creationMode e perm) []))"
    by (simp only: mkdirAll.simps[of e fs ?loc perm] none option.case P sum.case mk)
  then show ?case by auto
qed

text \<open>
  Into an output directory with nothing below it, an accepted entry for a regular file or
  a directory is extracted without an error.
\<close>

lemma extractEntry_fresh:
  assumes R: "R \<noteq> []" "hd R = CHR ''/''"
      and root: "lookup fs (locationOf R) = Some (Directory mR esR)"
      and acc: "accepted R hdr"
      and below: "\<And>q. strict_prefix (locationOf R) q \<Longrightarrow> lookup fs q = None"
  shows "Typeflag hdr = TypeReg \<Longrightarrow> \<exists>fs'. extractEntry e R fs hdr p True = (fs', Inr 1)"
    and "Typeflag hdr = TypeDir \<Longrightarrow> \<exists>fs'. extractEntry e R fs hdr p True = (fs', Inr 0)"
proof -
  let ?T = "Join [R, sanitizeExtractPath Posix (Name hdr)]"
  let ?tl = "targetLocation R hdr"
  let ?par = "butlast ?tl"
  note tp = target_paths[OF R acc]
  obtain m0 es0 where rt: "fs = Directory m0 es0" using root_dir[OF root] by auto
  have vpar: "\<forall>x \<in> set ?par. validName x" using tp(3) by (meson in_set_butlastD)
  obtain ys where ys: "?par = locationOf R @ ys" using tp(5) by (auto simp: prefix_def)
  have "\<exists>fs1. mkdirAll e fs (locationOf R @ ys) 493 = Inr fs1"
    using root below by (intro mkdirAll_fresh) auto
  then obtain fs1 where M: "mkdirAll e fs ?par 493 = Inr fs1" using ys by auto
  have M1: "MkdirAll e fs (Dir ?T) 493 = Inr fs1"
    unfolding tp(2) using MkdirAll_pathOf[OF vpar rt, of e 493] M by simp
  note props = mkdirAll_props[OF M]
  obtain mp esp where par1: "lookup fs1 ?par = Some (Directory mp esp)" using props by blast
  have "lookup fs ?tl = None" using below tp(4) by simp
  moreover have "\<not> prefix ?tl ?par"
    using tp(6) by (metis append_butlast_last_id prefix_order.antisym prefix_def
                      append_self_conv snoc_eq_iff_butlast prefixeq_butlast)
  ultimately have n1: "lookup fs1 ?tl = None" using props by blast
  have "stat fs1 [] = stat fs []" using props rt by simp
  then obtain es1 where rt1: "fs1 = Directory m0 es1"
    using rt by (cases fs1) (auto simp: stat_def)
  show "\<exists>fs'. extractEntry e R fs hdr p True = (fs', Inr 1)" if reg: "Typeflag hdr = TypeReg"
  proof -
    have "OpenFile e fs1 ?T False (Mode hdr)
            = Inr (put fs1 ?tl (RegFile (creationMode e (Mode hdr)) []))"
      unfolding tp(1) using OpenFile_pathOf[OF tp(3) tp(6) par1, of e False "Mode hdr"] n1
      by simp
    then have "\<exists>fs3. extractEntry e R fs hdr p True = (fs3, Inr 1)"
      by (simp add: extractEntry_accepted[OF acc] M1 reg Let_def)
    then show ?thesis .
  qed
  show "\<exists>fs'. extractEntry e R fs hdr p True = (fs', Inr 0)" if dir: "Typeflag hdr = TypeDir"
  proof -
    have l: "?tl = ?par @ [last ?tl]" using tp(6) by simp
    have "lookup fs1 (?par @ [last ?tl]) = None" using n1 l by simp
    with par1 have "mkdirAll e fs1 (?par @ [last ?tl]) (Mode hdr)
            = Inr (put fs1 (?par @ [last ?tl]) (Directory (creationMode e (Mode hdr)) []))"
      by (rule mkdirAll_one_level)
    then have "\<exists>fs2. mkdirAll e fs1 ?tl (Mode hdr) = Inr fs2" using l by auto
    then obtain fs2 where "MkdirAll e fs1 ?T (Mode hdr) = Inr fs2"
      unfolding tp(1) using MkdirAll_pathOf[OF tp(3) rt1, of e "Mode hdr"] by auto
    then have "extractEntry e R fs hdr p True = (fs2, Inr 0)"
      by (simp add: extractEntry_accepted[OF acc] M1 dir)
    then show ?thesis by blast
  qed
qed

section \<open>Facts about packing and unpacking plain sources\<close>

lemma in_dropWhile: "c \<in> set xs \<Longrightarrow> \<not> P c \<Longrightarrow> c \<in> set (dropWhile P xs)"
  by (induction xs) auto

lemma Trim_nonempty:
  assumes "\<exists>c \<in> set s. c \<notin> set cutset"
  shows "Trim s cutset \<noteq> []"
proof -
  let ?P = "\<lambda>c. c \<in> set cutset"
  obtain c where c: "c \<in> set s" "\<not> ?P c" using assms by (elim bexE)
  have 1: "c \<in> set (dropWhile ?P s)"
    using in_dropWhile[of c s ?P] c by simp
  then have 2: "c \<in> set (rev (dropWhile ?P s))" by simp
  have 3: "c \<in> set (dropWhile ?P (rev (dropWhile ?P s)))"
    using in_dropWhile[of c "rev (dropWhile ?P s)" ?P] 2 c(2) by simp
  have "dropWhile ?P (rev (dropWhile ?P s)) \<noteq> []"
  proof
    assume "dropWhile ?P (rev (dropWhile ?P s)) = []"
    then have "c \<in> set []" using 3 by (simp only:)
    then show False by simp
  qed
  then show ?thesis by (simp add: Trim_def TrimLeft_def TrimRight_def)
qed

lemma all_dots:
  assumes "s \<noteq> []" and "\<forall>c \<in> set s. c = CHR ''.''"
  shows "s = ''.'' \<or> Contains s ''..''"
proof (cases s)
  case Nil
  then show ?thesis using assms(1) by simp
next
  case s: (Cons a t)
  have a: "a = CHR ''.''" using assms(2) unfolding s by simp
  show ?thesis
  proof (cases t)
    case Nil
    then show ?thesis unfolding s a by simp
  next
    case t: (Cons c u)
    have c: "c = CHR ''.''" using assms(2) unfolding s t by simp
    have "HasPrefix (CHR ''.'' # CHR ''.'' # u) ''..''" by (simp add: HasPrefix_def)
    then have "Contains (CHR ''.'' # CHR ''.'' # u) ''..''" by (simp only: Contains.simps) simp
    then show ?thesis unfolding s t a c by (rule disjI2)
  qed
qed

lemma plainName_facts:
  assumes "plainName n"
  shows "n \<noteq> []" and "validName n" and "CHR ''/'' \<notin> set n" and "Backslash \<notin> set n"
    and "CHR '':'' \<notin> set n" and "\<not> Contains n ''..''"
    and "hd n \<noteq> CHR ''/''" and "hd n \<noteq> Backslash"
    and "\<exists>c \<in> set n. c \<noteq> CHR ''.''" and "\<not> (2 \<le> length n \<and> n ! 1 = CHR '':'')"
proof -
  show ne: "n \<noteq> []" and v: "validName n" and sl: "CHR ''/'' \<notin> set n"
    and bs: "Backslash \<notin> set n" and nd: "\<not> Contains n ''..''"
    using assms by (auto simp: plainName_def validName_def)
  show col: "CHR '':'' \<notin> set n"
    using assms by (auto simp: plainName_def invalidChars_def)
  show "hd n \<noteq> CHR ''/''" and "hd n \<noteq> Backslash"
    using ne sl bs by (cases n; auto)+
  show "\<exists>c \<in> set n. c \<noteq> CHR ''.''"
    using all_dots[of n] ne nd v by (auto simp: validName_def)
  show "\<not> (2 \<le> length n \<and> n ! 1 = CHR '':'')"
  proof
    assume a: "2 \<le> length n \<and> n ! 1 = CHR '':''"
    then have "1 < length n" by simp
    then have "n ! 1 \<in> set n" by (rule nth_mem)
    with a col show False by metis
  qed
qed

lemma sanitizeTarPath_plain: "plainName n \<Longrightarrow> sanitizeTarPath n = n"
proof -
  assume p: "plainName n"
  note f = plainName_facts[OF p]
  have t: "TrimLeft n [CHR ''/'', Backslash] = n"
    using f(1,7,8) by (intro TrimLeft_id) auto
  have r: "ReplaceAll n Backslash (CHR ''/'') = n"
    using f(4) by (auto simp: ReplaceAll_def intro: map_idI)
  have i: "ReplaceAllString invalidChars n (CHR ''_'') = n"
    using p by (auto simp: ReplaceAllString_def plainName_def intro!: map_idI)
  show ?thesis
    by (simp only: sanitizeTarPath_def Let_def if_not_P[OF f(10)] t r i)
qed

lemma sanitizeExtractPath_plain: "plainName n \<Longrightarrow> sanitizeExtractPath Posix n = n"
proof -
  assume p: "plainName n"
  note f = plainName_facts[OF p]
  have t: "TrimLeft n [CHR ''/'', Backslash] = n"
    using f(1,7,8) by (intro TrimLeft_id) auto
  have tr: "Trim n ''.'' \<noteq> []"
    using f(9) by (intro Trim_nonempty) auto
  have c1: "\<not> (n = [] \<or> Trim n ''.'' = [])" using f(1) tr by simp
  have c3: "\<not> Separator Posix = Backslash" by simp
  have fs: "FromSlash Posix n = n" by (simp add: FromSlash_def)
  show ?thesis
    by (simp only: sanitizeExtractPath_def Let_def if_not_P[OF f(10)] t
          if_not_P[OF c1] if_not_P[OF f(6)] if_not_P[OF c3] fs)
qed

lemma single_target:
  assumes R: "R \<noteq> []" "hd R = CHR ''/''" "locationOf R \<noteq> []"
      and c: "sanitizeExtractPath Posix (Name hdr) = c" "validName c"
  shows "accepted R hdr" and "targetLocation R hdr = locationOf R @ [c]"
proof -
  have nd: "\<not> Contains c ''..''" using c(1) sanitizeExtractPath_no_dotdot[of Posix "Name hdr"] by simp
  have sp: "filter (\<lambda>x. x \<noteq> [] \<and> x \<noteq> ''.'') (splitc (CHR ''/'') c) = [c]"
    using c(2) by (simp add: validName_def splitc_no_sep)
  have J: "Join [R, c] = CHR ''/'' # joinc (CHR ''/'') (locationOf R @ [c])"
    using Join_target(1)[OF R(1,2) nd] sp by simp
  have "Join [R, c] = (Clean R @ [CHR ''/'']) @ c"
    unfolding J using R by (simp add: Clean_rooted joinc_snoc)
  then have "HasPrefix (Join [R, c]) (Clean R @ [CHR ''/''])"
    unfolding HasPrefix_iff by (intro exI)
  then show "accepted R hdr"
    using c by (auto simp: accepted_def validName_def)
  show "targetLocation R hdr = locationOf R @ [c]"
    unfolding targetLocation_def c(1) using Join_target(2)[OF R(1,2) nd] sp by simp
qed

text \<open>
  An entry whose target is directly in the output directory, for a file or a directory
  that can be made there: the round ends without an error.
\<close>

lemma extract_single_ok:
  assumes R: "R \<noteq> []" "hd R = CHR ''/''" "locationOf R \<noteq> []"
      and root: "lookup fs (locationOf R) = Some (Directory mR esR)"
      and c: "sanitizeExtractPath Posix (Name hdr) = c" "validName c"
  shows "Typeflag hdr = TypeReg \<Longrightarrow>
         lookup fs (locationOf R @ [c]) = None
           \<or> (\<exists>m old. lookup fs (locationOf R @ [c]) = Some (RegFile m old)) \<Longrightarrow>
         \<exists>fs'. extractEntry e R fs hdr p True = (fs', Inr 1)"
    and "Typeflag hdr = TypeDir \<Longrightarrow>
         lookup fs (locationOf R @ [c]) = None
           \<or> (\<exists>m es. lookup fs (locationOf R @ [c]) = Some (Directory m es)) \<Longrightarrow>
         \<exists>fs'. extractEntry e R fs hdr p True = (fs', Inr 0)"
proof -
  let ?l = "locationOf R @ [c]"
  let ?T = "Join [R, sanitizeExtractPath Posix (Name hdr)]"
  note st = single_target[OF R c]
  note tp = target_paths[OF R(1,2) st(1)]
  obtain m0 es0 where rt: "fs = Directory m0 es0" using root_dir[OF root] by auto
  have bl: "butlast (targetLocation R hdr) = locationOf R" by (simp add: st(2))
  have vR: "\<forall>x \<in> set (locationOf R). validName x" by (rule locationOf_valid)
  have m1: "MkdirAll e fs (Dir ?T) 493 = Inr fs"
    unfolding tp(2) bl using MkdirAll_pathOf[OF vR rt, of e 493] mkdirAll_existing[OF root]
    by simp
  have vl: "\<forall>x \<in> set ?l. validName x" using tp(3) st(2) by simp
  have par: "lookup fs (butlast ?l) = Some (Directory mR esR)" using root by simp
  have T: "?T = pathOf ?l" using tp(1) st(2) by simp
  show "\<exists>fs'. extractEntry e R fs hdr p True = (fs', Inr 1)"
    if reg: "Typeflag hdr = TypeReg"
    and free: "lookup fs ?l = None \<or> (\<exists>m old. lookup fs ?l = Some (RegFile m old))"
  proof -
    have "\<exists>fs2. OpenFile e fs ?T False (Mode hdr) = Inr fs2"
      unfolding T using OpenFile_pathOf[OF vl _ par, of e False "Mode hdr"] free by auto
    then obtain fs2 where "OpenFile e fs ?T False (Mode hdr) = Inr fs2" by auto
    then have "extractEntry e R fs hdr p True = (Write e fs2 ?T p, Inr 1)"
      by (simp add: extractEntry_accepted[OF st(1)] m1 reg Let_def)
    then show ?thesis by blast
  qed
  show "\<exists>fs'. extractEntry e R fs hdr p True = (fs', Inr 0)"
    if dir: "Typeflag hdr = TypeDir"
    and free: "lookup fs ?l = None \<or> (\<exists>m es. lookup fs ?l = Some (Directory m es))"
  proof -
    have M2: "MkdirAll e fs ?T (Mode hdr) = mkdirAll e fs ?l (Mode hdr)"
      unfolding T using vl rt by (rule MkdirAll_pathOf)
    have "\<exists>fs2. mkdirAll e fs ?l (Mode hdr) = Inr fs2"
      using free mkdirAll_one_level[OF root, of c e "Mode hdr"] mkdirAll_existing[of fs ?l]
      by auto
    then obtain fs2 where "mkdirAll e fs ?l (Mode hdr) = Inr fs2" by auto
    then have "extractEntry e R fs hdr p True = (fs2, Inr 0)"
      by (simp add: extractEntry_accepted[OF st(1)] m1 dir M2)
    then show ?thesis by blast
  qed
qed

lemma single_target_others:
  assumes R: "R \<noteq> []" "hd R = CHR ''/''" "locationOf R \<noteq> []"
      and root: "lookup fs (locationOf R) = Some (Directory mR esR)"
      and c: "sanitizeExtractPath Posix (Name hdr) = c" "validName c"
      and step: "extractEntry e R fs hdr p k = (fs', r)"
      and q: "q \<noteq> locationOf R @ [c]"
  shows "stat fs' q = stat fs q"
proof -
  note st = single_target[OF R c]
  note ef = extractEntry_effect[OF R(1,2) root st(1) step]
  show ?thesis
  proof (cases "prefix q (targetLocation R hdr)")
    case False
    then show ?thesis by (rule ef(1))
  next
    case True
    then have "prefix q (locationOf R)" using q st(2) by (auto simp: prefix_snoc)
    then have "lookup fs q \<noteq> None" using lookup_prefix_exists[of fs "locationOf R" q] root by simp
    then show ?thesis using ef(2)[of q] q st(2) by simp
  qed
qed

lemma extract_plain_file:
  assumes R: "R \<noteq> []" "hd R = CHR ''/''" "locationOf R \<noteq> []"
      and root: "lookup fs (locationOf R) = Some (Directory mR esR)"
      and c: "sanitizeExtractPath Posix (Name hdr) = c" "validName c"
      and reg: "Typeflag hdr = TypeReg"
      and free: "lookup fs (locationOf R @ [c]) = None \<or>
                 (\<exists>m old. lookup fs (locationOf R @ [c]) = Some (RegFile m old))"
  shows "\<exists>fs'. extractEntry e R fs hdr p True = (fs', Inr 1)
           \<and> stat fs' (locationOf R @ [c])
               = (case lookup fs (locationOf R @ [c]) of
                    Some (RegFile m old) \<Rightarrow> Some (IsFile m (p @ drop (length p) old))
                  | _ \<Rightarrow> Some (IsFile (creationMode e (Mode hdr)) p))
           \<and> (\<forall>q. q \<noteq> locationOf R @ [c] \<longrightarrow> stat fs' q = stat fs q)"
proof -
  let ?l = "locationOf R @ [c]"
  note st = single_target[OF R c]
  obtain fs' where step: "extractEntry e R fs hdr p True = (fs', Inr 1)"
    using extract_single_ok(1)[OF R root c reg free] by auto
  note ef = extractEntry_effect[OF R(1,2) root st(1) step]
  have "stat fs' ?l = Some (case lookup fs ?l of
                              Some (RegFile m old) \<Rightarrow> IsFile m (p @ drop (length p) old)
                            | _ \<Rightarrow> IsFile (creationMode e (Mode hdr)) p)"
    using ef(4)[OF refl reg] st(2) by simp
  then have 1: "stat fs' ?l = (case lookup fs ?l of
                    Some (RegFile m old) \<Rightarrow> Some (IsFile m (p @ drop (length p) old))
                  | _ \<Rightarrow> Some (IsFile (creationMode e (Mode hdr)) p))"
    by (simp split: option.splits node.splits)
  have 2: "\<forall>q. q \<noteq> ?l \<longrightarrow> stat fs' q = stat fs q"
    using single_target_others[OF R root c step] by blast
  show ?thesis using step 1 2 by (intro exI[of _ fs'] conjI)
qed

lemma extract_plain_dir:
  assumes R: "R \<noteq> []" "hd R = CHR ''/''" "locationOf R \<noteq> []"
      and root: "lookup fs (locationOf R) = Some (Directory mR esR)"
      and c: "sanitizeExtractPath Posix (Name hdr) = c" "validName c"
      and dir: "Typeflag hdr = TypeDir"
      and free: "lookup fs (locationOf R @ [c]) = None \<or>
                 (\<exists>m es. lookup fs (locationOf R @ [c]) = Some (Directory m es))"
  shows "\<exists>fs'. extractEntry e R fs hdr p True = (fs', Inr 0)
           \<and> stat fs' (locationOf R @ [c])
               = (case lookup fs (locationOf R @ [c]) of
                    Some (Directory m es) \<Rightarrow> Some (IsDir m)
                  | _ \<Rightarrow> Some (IsDir (creationMode e (Mode hdr))))
           \<and> (\<forall>q. q \<noteq> locationOf R @ [c] \<longrightarrow> stat fs' q = stat fs q)"
proof -
  let ?l = "locationOf R @ [c]"
  note st = single_target[OF R c]
  obtain fs' where step: "extractEntry e R fs hdr p True = (fs', Inr 0)"
    using extract_single_ok(2)[OF R root c dir free] by auto
  note ef = extractEntry_effect[OF R(1,2) root st(1) step]
  have "stat fs' ?l = Some (IsDir (case lookup fs ?l of
                                     Some (Directory m es) \<Rightarrow> m
                                   | _ \<Rightarrow> creationMode e (Mode hdr)))"
    using ef(5)[OF refl dir] st(2) by simp
  then have 1: "stat fs' ?l = (case lookup fs ?l of
                    Some (Directory m es) \<Rightarrow> Some (IsDir m)
                  | _ \<Rightarrow> Some (IsDir (creationMode e (Mode hdr))))"
    by (simp split: option.splits node.splits)
  have 2: "\<forall>q. q \<noteq> ?l \<longrightarrow> stat fs' q = stat fs q"
    using single_target_others[OF R root c step] by blast
  show ?thesis using step 1 2 by (intro exI[of _ fs'] conjI)
qed

lemma plainSource_cases:
  assumes "plainSource e fs n"
  obtains m b where "Stat e fs n = Some (RegFile m b)"
        | m where "Stat e fs n = Some (Directory m [])"
proof (cases "Stat e fs n")
  case None
  then show ?thesis using assms by (simp add: plainSource_def)
next
  case (Some src)
  show ?thesis
  proof (cases src)
    case (RegFile m b)
    then show ?thesis using Some that(1) by simp
  next
    case (Directory m es)
    then have "es = []" using assms Some by (simp add: plainSource_def)
    then show ?thesis using Some Directory that(2) by simp
  qed
qed

lemma addEntry_root:
  assumes "plainName n" and "src = RegFile m b \<or> src = Directory m []"
  shows "addEntry n n src s = ((fst s @ [packed n src], snd s + payloadSize src), None)"
  using assms(2)
  by (auto simp: addEntry_def Let_def ToSlash_def sanitizeTarPath_plain[OF assms(1)])

lemma addToTar_plain:
  assumes "plainSource e fs n"
  shows "addToTar e fs n s
           = ((fst s @ [packed n (the (Stat e fs n))], snd s + payloadSize (the (Stat e fs n))), None)"
proof -
  have p: "plainName n" using assms by (simp add: plainSource_def)
  from assms show ?thesis
  proof (cases rule: plainSource_cases)
    case (1 m b)
    then show ?thesis
      using addEntry_root[OF p, of "RegFile m b" m b s] by (simp add: addToTar_def)
  next
    case (2 m)
    then show ?thesis
      using addEntry_root[OF p, of "Directory m []" m undefined s] by (simp add: addToTar_def)
  qed
qed

lemma addFiles_plain:
  "\<forall>n \<in> set names. plainSource e fs n \<Longrightarrow>
   addFiles e fs names s
     = ((fst s @ map (\<lambda>n. packed n (the (Stat e fs n))) names,
         snd s + sum_list (map (\<lambda>n. payloadSize (the (Stat e fs n))) names)), None)"
proof (induction names arbitrary: s)
  case Nil
  then show ?case by simp
next
  case (Cons n names)
  have n: "plainSource e fs n" using Cons.prems by simp
  have rest: "\<forall>n \<in> set names. plainSource e fs n" using Cons.prems by simp
  show ?case
    by (simp add: addToTar_plain[OF n] Cons.IH[OF rest] algebra_simps)
qed

lemma packed_header:
  assumes "src = RegFile m b \<or> src = Directory m []"
  obtains hdr p where "packed n src = Entry hdr p" and "Name hdr = n" and "Mode hdr = m"
    and "src = RegFile m b \<Longrightarrow> Typeflag hdr = TypeReg \<and> p = b"
    and "src = Directory m [] \<Longrightarrow> Typeflag hdr = TypeDir"
  using assms by auto

lemma extract_packed_step:
  assumes R: "R \<noteq> []" "hd R = CHR ''/''" "locationOf R \<noteq> []"
      and root: "lookup fs2 (locationOf R) = Some (Directory mR esR)"
      and src: "plainSource e fs n"
      and inv: "stat fs2 (locationOf R @ [n]) = None
                \<or> stat fs2 (locationOf R @ [n]) = map_option (unpacked e) (Stat e fs n)"
  shows "\<exists>fs1 hdr p. packed n (the (Stat e fs n)) = Entry hdr p
           \<and> extractEntry e R fs2 hdr p True = (fs1, Inr (regularCount [Stat e fs n]))
           \<and> stat fs1 (locationOf R @ [n]) = map_option (unpacked e) (Stat e fs n)
           \<and> (\<forall>q. q \<noteq> locationOf R @ [n] \<longrightarrow> stat fs1 q = stat fs2 q)"
proof -
  let ?l = "locationOf R @ [n]"
  have p: "plainName n" using src by (simp add: plainSource_def)
  have v: "validName n" using p by (simp add: plainName_def)
  from src show ?thesis
  proof (cases rule: plainSource_cases)
    case (1 m b)
    let ?hdr = "\<lparr>Name = n, Typeflag = TypeReg, Mode = m, Size = int (length b)\<rparr>"
    have c: "sanitizeExtractPath Posix (Name ?hdr) = n" using p by (simp add: sanitizeExtractPath_plain)
    have free: "lookup fs2 ?l = None \<or> (\<exists>m' old. lookup fs2 ?l = Some (RegFile m' old))"
      using inv 1 by (auto simp: stat_None stat_IsFile)
    obtain fs1 where fs1: "extractEntry e R fs2 ?hdr b True = (fs1, Inr 1)"
      and st: "stat fs1 ?l = (case lookup fs2 ?l of
                    Some (RegFile m' old) \<Rightarrow> Some (IsFile m' (b @ drop (length b) old))
                  | _ \<Rightarrow> Some (IsFile (creationMode e (Mode ?hdr)) b))"
      and fr: "\<forall>q. q \<noteq> ?l \<longrightarrow> stat fs1 q = stat fs2 q"
      using extract_plain_file[OF R root c v _ free, of e b] by auto
    have "stat fs1 ?l = Some (IsFile (creationMode e m) b)"
    proof (cases "stat fs2 ?l = None")
      case True
      then show ?thesis using st by (simp add: stat_None)
    next
      case False
      then have "stat fs2 ?l = Some (IsFile (creationMode e m) b)" using inv 1 by auto
      then have "lookup fs2 ?l = Some (RegFile (creationMode e m) b)" by (simp add: stat_IsFile)
      then show ?thesis using st by simp
    qed
    then have "packed n (the (Stat e fs n)) = Entry ?hdr b
           \<and> extractEntry e R fs2 ?hdr b True = (fs1, Inr (regularCount [Stat e fs n]))
           \<and> stat fs1 ?l = map_option (unpacked e) (Stat e fs n)
           \<and> (\<forall>q. q \<noteq> ?l \<longrightarrow> stat fs1 q = stat fs2 q)"
      using 1 fs1 fr by simp
    then show ?thesis by (intro exI)
  next
    case (2 m)
    let ?hdr = "\<lparr>Name = n, Typeflag = TypeDir, Mode = m, Size = 0\<rparr>"
    have c: "sanitizeExtractPath Posix (Name ?hdr) = n" using p by (simp add: sanitizeExtractPath_plain)
    have free: "lookup fs2 ?l = None \<or> (\<exists>m' es. lookup fs2 ?l = Some (Directory m' es))"
      using inv 2 by (auto simp: stat_None stat_IsDir)
    obtain fs1 where fs1: "extractEntry e R fs2 ?hdr [] True = (fs1, Inr 0)"
      and st: "stat fs1 ?l = (case lookup fs2 ?l of
                    Some (Directory m' es) \<Rightarrow> Some (IsDir m')
                  | _ \<Rightarrow> Some (IsDir (creationMode e (Mode ?hdr))))"
      and fr: "\<forall>q. q \<noteq> ?l \<longrightarrow> stat fs1 q = stat fs2 q"
      using extract_plain_dir[OF R root c v _ free, of e "[]"] by auto
    have "stat fs1 ?l = Some (IsDir (creationMode e m))"
    proof (cases "stat fs2 ?l = None")
      case True
      then show ?thesis using st by (simp add: stat_None)
    next
      case False
      then have "stat fs2 ?l = Some (IsDir (creationMode e m))" using inv 2 by auto
      then obtain es where "lookup fs2 ?l = Some (Directory (creationMode e m) es)"
        by (auto simp: stat_IsDir)
      then show ?thesis using st by simp
    qed
    then have "packed n (the (Stat e fs n)) = Entry ?hdr []
           \<and> extractEntry e R fs2 ?hdr [] True = (fs1, Inr (regularCount [Stat e fs n]))
           \<and> stat fs1 ?l = map_option (unpacked e) (Stat e fs n)
           \<and> (\<forall>q. q \<noteq> ?l \<longrightarrow> stat fs1 q = stat fs2 q)"
      using 2 fs1 fr by simp
    then show ?thesis by (intro exI)
  qed
qed

lemma regularCount_Cons: "regularCount (x # xs) = regularCount [x] + regularCount xs"
proof (cases x)
  case None
  then show ?thesis by simp
next
  case (Some n)
  then show ?thesis by (cases n) simp_all
qed

lemma extract_packed:
  assumes R: "R \<noteq> []" "hd R = CHR ''/''" "locationOf R \<noteq> []"
      and srcs: "\<forall>n \<in> set all. plainSource e fs n"
  shows "set ns \<subseteq> set all \<Longrightarrow>
         lookup fs2 (locationOf R) = Some (Directory mR esR) \<Longrightarrow>
         (\<forall>n \<in> set all. stat fs2 (locationOf R @ [n]) = None
              \<or> stat fs2 (locationOf R @ [n]) = map_option (unpacked e) (Stat e fs n)) \<Longrightarrow>
         \<exists>fs'. extractEntries e R fs2 (map (\<lambda>n. packed n (the (Stat e fs n))) ns) k
                  = (fs', Inr (k + regularCount (map (Stat e fs) ns), R))
             \<and> (\<forall>n \<in> set ns. stat fs' (locationOf R @ [n]) = map_option (unpacked e) (Stat e fs n))
             \<and> (\<forall>q. (\<forall>n \<in> set ns. q \<noteq> locationOf R @ [n]) \<longrightarrow> stat fs' q = stat fs2 q)"
proof (induction ns arbitrary: fs2 k esR)
  case Nil
  then show ?case by simp
next
  case (Cons n ns)
  let ?L = "locationOf R"
  have nall: "n \<in> set all" and sub: "set ns \<subseteq> set all" using Cons.prems(1) by auto
  have src: "plainSource e fs n" using srcs nall by simp
  have inv_n: "stat fs2 (?L @ [n]) = None
               \<or> stat fs2 (?L @ [n]) = map_option (unpacked e) (Stat e fs n)"
    using Cons.prems(3) nall by simp
  obtain fs1 hdr p where pk: "packed n (the (Stat e fs n)) = Entry hdr p"
    and ex: "extractEntry e R fs2 hdr p True = (fs1, Inr (regularCount [Stat e fs n]))"
    and st: "stat fs1 (?L @ [n]) = map_option (unpacked e) (Stat e fs n)"
    and fr: "\<forall>q. q \<noteq> ?L @ [n] \<longrightarrow> stat fs1 q = stat fs2 q"
    using extract_packed_step[OF R Cons.prems(2) src inv_n] by blast
  have "stat fs1 ?L = stat fs2 ?L" using fr by simp
  then have "stat fs1 ?L = Some (IsDir mR)" using Cons.prems(2) by (simp add: stat_def)
  then obtain es1 where root1: "lookup fs1 ?L = Some (Directory mR es1)"
    by (auto simp: stat_IsDir)
  have inv1: "\<forall>n' \<in> set all. stat fs1 (?L @ [n']) = None
              \<or> stat fs1 (?L @ [n']) = map_option (unpacked e) (Stat e fs n')"
  proof
    fix n' assume n': "n' \<in> set all"
    show "stat fs1 (?L @ [n']) = None
          \<or> stat fs1 (?L @ [n']) = map_option (unpacked e) (Stat e fs n')"
    proof (cases "n' = n")
      case True
      then show ?thesis using st by simp
    next
      case False
      then have "stat fs1 (?L @ [n']) = stat fs2 (?L @ [n'])" using fr by simp
      then show ?thesis using Cons.prems(3) n' by simp
    qed
  qed
  obtain fs' where
        run: "extractEntries e R fs1 (map (\<lambda>n. packed n (the (Stat e fs n))) ns)
                (k + regularCount [Stat e fs n])
              = (fs', Inr (k + regularCount [Stat e fs n] + regularCount (map (Stat e fs) ns), R))"
    and all: "\<forall>n \<in> set ns. stat fs' (?L @ [n]) = map_option (unpacked e) (Stat e fs n)"
    and fr': "\<forall>q. (\<forall>n \<in> set ns. q \<noteq> ?L @ [n]) \<longrightarrow> stat fs' q = stat fs1 q"
    using Cons.IH[OF sub root1 inv1, of "k + regularCount [Stat e fs n]"] by blast
  have 1: "extractEntries e R fs2 (map (\<lambda>n. packed n (the (Stat e fs n))) (n # ns)) k
           = (fs', Inr (k + regularCount (map (Stat e fs) (n # ns)), R))"
    using pk ex run regularCount_Cons[of "Stat e fs n" "map (Stat e fs) ns"] by simp
  have 2: "\<forall>n' \<in> set (n # ns). stat fs' (?L @ [n']) = map_option (unpacked e) (Stat e fs n')"
  proof
    fix n' assume n': "n' \<in> set (n # ns)"
    show "stat fs' (?L @ [n']) = map_option (unpacked e) (Stat e fs n')"
    proof (cases "n' \<in> set ns")
      case True
      then show ?thesis using all by simp
    next
      case False
      then have eq: "n' = n" using n' by simp
      have "\<forall>m \<in> set ns. ?L @ [n] \<noteq> ?L @ [m]" using False eq by auto
      then have "stat fs' (?L @ [n]) = stat fs1 (?L @ [n])" using fr' by simp
      then show ?thesis using st eq by simp
    qed
  qed
  have 3: "\<forall>q. (\<forall>n' \<in> set (n # ns). q \<noteq> ?L @ [n']) \<longrightarrow> stat fs' q = stat fs2 q"
    using fr fr' by simp
  show ?case using 1 2 3 by (intro exI[of _ fs'] conjI)
qed

lemma roundtrip_streams:
  assumes srcs: "\<forall>n \<in> set names. plainSource e fs n"
      and R: "R \<noteq> []" "hd R = CHR ''/''" "locationOf R \<noteq> []"
      and fresh: "lookup fs2 (locationOf R) = Some (Directory mR [])"
  shows "\<exists>items total fs'.
           addFiles e fs names ([], 0) = ((items, total), None)
         \<and> extractEntries e R fs2 items 0 = (fs', Inr (regularCount (map (Stat e fs) names), R))
         \<and> (\<forall>n \<in> set names. stat fs' (locationOf R @ [n]) = map_option (unpacked e) (Stat e fs n))
         \<and> unchangedOutside (locationOf R) fs2 fs'"
proof -
  let ?items = "map (\<lambda>n. packed n (the (Stat e fs n))) names"
  let ?total = "sum_list (map (\<lambda>n. payloadSize (the (Stat e fs n))) names)"
  have pack: "addFiles e fs names ([], 0) = ((?items, ?total), None)"
    using addFiles_plain[OF srcs, of "([], 0)"] by simp
  have empty: "\<forall>n \<in> set names. stat fs2 (locationOf R @ [n]) = None
                 \<or> stat fs2 (locationOf R @ [n]) = map_option (unpacked e) (Stat e fs n)"
    using fresh by (simp add: stat_def lookup_append)
  obtain fs' where
        run: "extractEntries e R fs2 ?items 0
              = (fs', Inr (0 + regularCount (map (Stat e fs) names), R))"
    and all: "\<forall>n \<in> set names. stat fs' (locationOf R @ [n]) = map_option (unpacked e) (Stat e fs n)"
    using extract_packed[OF R srcs subset_refl fresh empty, of 0] by blast
  have fr: "unchangedOutside (locationOf R) fs2 fs'"
    using R(1,2) fresh run by (rule extractEntries_frame)
  show ?thesis
    using pack run all fr by (intro exI[of _ ?items] exI[of _ ?total] exI[of _ fs']) simp
qed

lemma locationOf_child:
  assumes "validName n"
  shows "locationOf (p @ CHR ''/'' # n) = locationOf p @ [n]"
proof -
  have sp: "splitc (CHR ''/'') n = [n]" using assms by (simp add: validName_def splitc_no_sep)
  have "''..'' \<notin> set (splitc (CHR ''/'') n)" using assms by (auto simp: sp validName_def)
  then show ?thesis
    using assms by (simp add: locationOf_append sp validName_def)
qed

lemma locate_child:
  assumes cwd: "Getwd e = Some cwd" "hd cwd = CHR ''/''" "Clean cwd = cwd"
      and dir: "lookup fs (locationOf cwd) = Some (Directory m es)"
      and n: "validName n"
  shows "locate e fs n = Inr (locationOf cwd @ [n])"
proof -
  let ?C = "locationOf cwd"
  have ne: "cwd \<noteq> []" using cwd(3) by (auto simp: Clean_def)
  have c: "cwd = pathOf ?C" using Clean_rooted[OF ne cwd(2)] cwd(3) by (simp add: pathOf_def)
  have vC: "\<forall>x \<in> set ?C. validName x" by (rule locationOf_valid)
  obtain a t where a: "n = a # t" "a \<noteq> CHR ''/''"
    using n by (cases n) (auto simp: validName_def)
  have sn: "splitc (CHR ''/'') n = [n]" using n by (simp add: validName_def splitc_no_sep)
  obtain m0 es0 where rt: "fs = Directory m0 es0" using root_dir[OF dir] by auto
  have v: "\<forall>x \<in> set (?C @ [n]). validName x" using vC n by simp
  have walk: "namei fs [] (?C @ [n]) = Inr ([] @ ?C @ [n])"
    using v dir by (intro namei_valid_Inr) auto
  have "splitc (CHR ''/'') (cwd @ ''/'' @ n) = splitc (CHR ''/'') (pathOf ?C) @ [n]"
    using c by (simp add: splitc_append sn)
  then have "namei fs [] (splitc (CHR ''/'') (cwd @ ''/'' @ n)) = Inr (?C @ [n])"
    using walk rt n by (auto simp: splitc_pathOf[OF vC] validName_def)
  then show ?thesis using cwd(1) a by (simp add: locate_def)
qed

lemma Stat_child:
  assumes cwd: "Getwd e = Some cwd" "hd cwd = CHR ''/''" "Clean cwd = cwd"
      and dir: "lookup fs (locationOf cwd) = Some (Directory m es)"
      and n: "validName n"
  shows "Stat e fs n = lookup fs (locationOf cwd @ [n])"
  by (simp add: Stat_def locate_child[OF assms])

lemma Join_child:
  assumes "cwd \<noteq> []" "hd cwd = CHR ''/''" and "validName n"
  shows "locationOf (Join [cwd, n]) = locationOf cwd @ [n]"
proof -
  have "Join [cwd, n] = Clean (cwd @ CHR ''/'' # n)" using assms(1) by (rule Join2)
  moreover have "locationOf (Clean (cwd @ CHR ''/'' # n)) = locationOf (cwd @ CHR ''/'' # n)"
    using assms(1,2) by (intro locationOf_Clean) auto
  ultimately show ?thesis using assms(3) by (simp add: locationOf_child)
qed

lemma stat_Directory:
  "stat fs' q = stat fs q \<Longrightarrow> lookup fs q = Some (Directory m es) \<Longrightarrow>
   \<exists>es'. lookup fs' q = Some (Directory m es')"
  by (simp add: stat_IsDir[symmetric] stat_def)


section \<open>The claims\<close>

subsection \<open>Claim C1: traversal attempts and absolute paths\<close>

text \<open>
  Claim C1, as amended. Let the working directory be an absolute path and \<open>R\<close> the output
  directory the run joins from it.

  An entry whose stored path has \<^verbatim>\<open>..\<close> anywhere in it (so every traversal attempt, with
  slashes or with backslashes) is skipped: the loop goes on exactly as if the entry were not
  in the stream, so nothing of it reaches the disk and it is not counted.

  An entry with an absolute path is not skipped for being absolute: its leading separators
  are stripped, and the round is the round of the entry that stores the rest of the path
  (taken without a colon in its first two bytes). Whether that entry is extracted is what
  the two guards decide: an entry is accepted exactly when the output directory is not the
  root directory and its sanitized name has an element other than the empty one and
  \<^verbatim>\<open>.\<close>. An accepted regular entry has its target strictly below the output directory; when
  its round ends without an error it is counted once and the target is a regular file that
  begins with its payload; and in an output directory with nothing below it the round does
  end without an error, and the file holds the payload and has the mode of the entry less
  the bits of the mask. So \<^verbatim>\<open>/etc/passwd\<close> is extracted as \<^verbatim>\<open>etc/passwd\<close> below the output
  directory, and counted.

  No entry is written outside the output directory: whatever the stream holds, the loop
  changes nothing at a location that is not strictly below the output directory. A whole
  run of \<^verbatim>\<open>decompressFile\<close> makes the output directory before the loop starts, and with it
  the ancestors of the output directory that are missing; apart from these, every location
  that is not the output directory or below it is after the run as it was before.
\<close>

theorem Unpack_traversal_skipped_absolute_confined:
  assumes cwd: "Getwd e = Some cwd" "cwd \<noteq> []" "hd cwd = CHR ''/''"
      and R: "R = Join [cwd, outputDir]"
  shows
   "(Contains (Name hdr) ''..'' \<longrightarrow>
       extractEntries e R fs (Entry hdr payload # rest) n = extractEntries e R fs rest n)
  \<and> (seps \<noteq> [] \<longrightarrow> set seps \<subseteq> {CHR ''/'', Backslash} \<longrightarrow> CHR '':'' \<notin> set (take 2 rel) \<longrightarrow>
       extractEntry e R fs (hdr\<lparr>Name := seps @ rel\<rparr>) payload c
         = extractEntry e R fs (hdr\<lparr>Name := rel\<rparr>) payload c)
  \<and> (accepted R hdr \<longleftrightarrow>
         locationOf R \<noteq> []
       \<and> (\<exists>x \<in> set (splitc (CHR ''/'') (sanitizeExtractPath Posix (Name hdr))).
             x \<noteq> [] \<and> x \<noteq> ''.''))
  \<and> (lookup fs (locationOf R) = Some (Directory mR esR) \<longrightarrow>
     accepted R hdr \<longrightarrow> Typeflag hdr = TypeReg \<longrightarrow>
       strict_prefix (locationOf R) (targetLocation R hdr)
     \<and> (\<forall>fs1 k. extractEntry e R fs hdr payload True = (fs1, Inr k) \<longrightarrow>
           k = 1
         \<and> (\<exists>m old. stat fs1 (targetLocation R hdr)
                       = Some (IsFile m (payload @ drop (length payload) old))))
     \<and> ((\<forall>q. strict_prefix (locationOf R) q \<longrightarrow> lookup fs q = None) \<longrightarrow>
           snd (extractEntry e R fs hdr payload True) = Inr 1
         \<and> stat (fst (extractEntry e R fs hdr payload True)) (targetLocation R hdr)
             = Some (IsFile (creationMode e (Mode hdr)) payload)))
  \<and> (lookup fs (locationOf R) = Some (Directory mR esR) \<longrightarrow>
       unchangedOutside (locationOf R) fs (fst (extractEntries e R fs items n)))
  \<and> (decompressFile e cdc fs0 archiveFile outputDir = (fs', r) \<longrightarrow>
       (\<forall>q. \<not> prefix (locationOf R) q \<longrightarrow>
            (lookup fs0 q \<noteq> None \<or> \<not> prefix q (locationOf R)) \<longrightarrow>
            stat fs' q = stat fs0 q))"
proof -
  have Rr: "R \<noteq> []" "hd R = CHR ''/''"
    unfolding R using cwd(2,3) by (rule Join_cwd_rooted)+
  have 1: "Contains (Name hdr) ''..'' \<longrightarrow>
       extractEntries e R fs (Entry hdr payload # rest) n = extractEntries e R fs rest n"
  proof
    assume "Contains (Name hdr) ''..''"
    then have "\<not> accepted R hdr" by (rule not_accepted_dotdot)
    then show "extractEntries e R fs (Entry hdr payload # rest) n = extractEntries e R fs rest n"
      by (rule extractEntries_skip)
  qed
  have 2: "seps \<noteq> [] \<longrightarrow> set seps \<subseteq> {CHR ''/'', Backslash} \<longrightarrow> CHR '':'' \<notin> set (take 2 rel) \<longrightarrow>
       extractEntry e R fs (hdr\<lparr>Name := seps @ rel\<rparr>) payload c
         = extractEntry e R fs (hdr\<lparr>Name := rel\<rparr>) payload c"
  proof (intro impI)
    assume "seps \<noteq> []" and "set seps \<subseteq> {CHR ''/'', Backslash}"
       and "CHR '':'' \<notin> set (take 2 rel)"
    then have "sanitizeExtractPath Posix (seps @ rel) = sanitizeExtractPath Posix rel"
      by (rule sanitizeExtractPath_leading_separators)
    then show "extractEntry e R fs (hdr\<lparr>Name := seps @ rel\<rparr>) payload c
         = extractEntry e R fs (hdr\<lparr>Name := rel\<rparr>) payload c"
      by (intro extractEntry_Name) simp_all
  qed
  have 3: "accepted R hdr \<longleftrightarrow>
         locationOf R \<noteq> []
       \<and> (\<exists>x \<in> set (splitc (CHR ''/'') (sanitizeExtractPath Posix (Name hdr))).
             x \<noteq> [] \<and> x \<noteq> ''.'')"
    using Rr by (rule accepted_iff)
  have 4: "lookup fs (locationOf R) = Some (Directory mR esR) \<longrightarrow>
     accepted R hdr \<longrightarrow> Typeflag hdr = TypeReg \<longrightarrow>
       strict_prefix (locationOf R) (targetLocation R hdr)
     \<and> (\<forall>fs1 k. extractEntry e R fs hdr payload True = (fs1, Inr k) \<longrightarrow>
           k = 1
         \<and> (\<exists>m old. stat fs1 (targetLocation R hdr)
                       = Some (IsFile m (payload @ drop (length payload) old))))
     \<and> ((\<forall>q. strict_prefix (locationOf R) q \<longrightarrow> lookup fs q = None) \<longrightarrow>
           snd (extractEntry e R fs hdr payload True) = Inr 1
         \<and> stat (fst (extractEntry e R fs hdr payload True)) (targetLocation R hdr)
             = Some (IsFile (creationMode e (Mode hdr)) payload))"
  proof (intro impI)
    assume root: "lookup fs (locationOf R) = Some (Directory mR esR)"
       and acc: "accepted R hdr" and reg: "Typeflag hdr = TypeReg"
    let ?tl = "targetLocation R hdr"
    have a: "strict_prefix (locationOf R) ?tl" using Rr acc by (rule target_paths(4))
    have b: "\<forall>fs1 k. extractEntry e R fs hdr payload True = (fs1, Inr k) \<longrightarrow>
           k = 1 \<and> (\<exists>m old. stat fs1 ?tl = Some (IsFile m (payload @ drop (length payload) old)))"
    proof (intro allI impI)
      fix fs1 k
      assume step: "extractEntry e R fs hdr payload True = (fs1, Inr k)"
      note e4 = extractEntry_effect(4)[OF Rr root acc step refl reg]
      have "\<exists>m old. stat fs1 ?tl = Some (IsFile m (payload @ drop (length payload) old))"
      proof (cases "lookup fs ?tl")
        case None
        then have "stat fs1 ?tl
            = Some (IsFile (creationMode e (Mode hdr)) (payload @ drop (length payload) []))"
          using e4 by simp
        then show ?thesis by blast
      next
        case (Some nd)
        then obtain m old where "lookup fs ?tl = Some (RegFile m old)" using e4 by auto
        then have "stat fs1 ?tl = Some (IsFile m (payload @ drop (length payload) old))"
          using e4 by simp
        then show ?thesis by blast
      qed
      then show "k = 1 \<and> (\<exists>m old. stat fs1 ?tl
                            = Some (IsFile m (payload @ drop (length payload) old)))"
        using e4 by simp
    qed
    have c: "(\<forall>q. strict_prefix (locationOf R) q \<longrightarrow> lookup fs q = None) \<longrightarrow>
           snd (extractEntry e R fs hdr payload True) = Inr 1
         \<and> stat (fst (extractEntry e R fs hdr payload True)) ?tl
             = Some (IsFile (creationMode e (Mode hdr)) payload)"
    proof
      assume below: "\<forall>q. strict_prefix (locationOf R) q \<longrightarrow> lookup fs q = None"
      obtain fs1 where step: "extractEntry e R fs hdr payload True = (fs1, Inr 1)"
        using extractEntry_fresh(1)[OF Rr root acc _ reg, of e payload] below by blast
      note e4 = extractEntry_effect(4)[OF Rr root acc step refl reg]
      have "lookup fs ?tl = None" using below a by simp
      then have "stat fs1 ?tl = Some (IsFile (creationMode e (Mode hdr)) payload)"
        using e4 by simp
      then show "snd (extractEntry e R fs hdr payload True) = Inr 1
         \<and> stat (fst (extractEntry e R fs hdr payload True)) ?tl
             = Some (IsFile (creationMode e (Mode hdr)) payload)"
        using step by simp
    qed
    show "strict_prefix (locationOf R) ?tl
     \<and> (\<forall>fs1 k. extractEntry e R fs hdr payload True = (fs1, Inr k) \<longrightarrow>
           k = 1
         \<and> (\<exists>m old. stat fs1 ?tl = Some (IsFile m (payload @ drop (length payload) old))))
     \<and> ((\<forall>q. strict_prefix (locationOf R) q \<longrightarrow> lookup fs q = None) \<longrightarrow>
           snd (extractEntry e R fs hdr payload True) = Inr 1
         \<and> stat (fst (extractEntry e R fs hdr payload True)) ?tl
             = Some (IsFile (creationMode e (Mode hdr)) payload))"
      using a b c by (intro conjI)
  qed
  have 5: "lookup fs (locationOf R) = Some (Directory mR esR) \<longrightarrow>
       unchangedOutside (locationOf R) fs (fst (extractEntries e R fs items n))"
  proof
    assume root: "lookup fs (locationOf R) = Some (Directory mR esR)"
    have "extractEntries e R fs items n
            = (fst (extractEntries e R fs items n), snd (extractEntries e R fs items n))"
      by simp
    with Rr root show "unchangedOutside (locationOf R) fs (fst (extractEntries e R fs items n))"
      by (rule extractEntries_frame)
  qed
  have 6: "decompressFile e cdc fs0 archiveFile outputDir = (fs', r) \<longrightarrow>
       (\<forall>q. \<not> prefix (locationOf R) q \<longrightarrow>
            (lookup fs0 q \<noteq> None \<or> \<not> prefix q (locationOf R)) \<longrightarrow>
            stat fs' q = stat fs0 q)"
  proof (intro impI allI)
    fix q
    assume "decompressFile e cdc fs0 archiveFile outputDir = (fs', r)"
       and "\<not> prefix (locationOf R) q"
       and "lookup fs0 q \<noteq> None \<or> \<not> prefix q (locationOf R)"
    then show "stat fs' q = stat fs0 q"
      unfolding R using cwd by (intro decompressFile_frame)
  qed
  show ?thesis using 1 2 3 4 5 6 by (intro conjI)
qed

theorem Unpack_traversal_skipped_absolute_confined_witness:
  "extractEntries exampleEnv ''/w/empty'' exampleFs
       [regular ''../../etc/passwd'' 420 ''root'', regular ''f'' 420 ''A''] 0
     = extractEntries exampleEnv ''/w/empty'' exampleFs [regular ''f'' 420 ''A''] 0
   \<and> extractEntry exampleEnv ''/w/empty'' exampleFs
         \<lparr>Name = ''/etc/passwd'', Typeflag = TypeReg, Mode = 420, Size = 4\<rparr> ''root'' True
       = extractEntry exampleEnv ''/w/empty'' exampleFs
           \<lparr>Name = ''etc/passwd'', Typeflag = TypeReg, Mode = 420, Size = 4\<rparr> ''root'' True
   \<and> accepted ''/w/empty'' \<lparr>Name = ''/etc/passwd'', Typeflag = TypeReg, Mode = 420, Size = 4\<rparr>
   \<and> snd (extractEntry exampleEnv ''/w/empty'' exampleFs
            \<lparr>Name = ''/etc/passwd'', Typeflag = TypeReg, Mode = 420, Size = 4\<rparr> ''root'' True)
       = Inr 1
   \<and> stat (fst (extractEntry exampleEnv ''/w/empty'' exampleFs
                 \<lparr>Name = ''/etc/passwd'', Typeflag = TypeReg, Mode = 420, Size = 4\<rparr> ''root'' True))
          [''w'', ''empty'', ''etc'', ''passwd'']
       = Some (IsFile 420 ''root'')
   \<and> stat (fst (extractEntries exampleEnv ''/w/empty'' exampleFs
                 [regular ''/etc/passwd'' 420 ''root''] 0)) [''etc'', ''passwd'']
       = Some (IsFile 420 ''secret'')
   \<and> stat (fst (decompressFile exampleEnv
                  (exampleCodec [regular ''../../etc/passwd'' 420 ''root'',
                                 regular ''/etc/passwd'' 420 ''root''])
                  exampleFs ''a.zst'' ''empty'')) [''etc'', ''passwd'']
       = Some (IsFile 420 ''secret'')"
proof -
  let ?R = "''/w/empty''"
  let ?cdc = "exampleCodec [regular ''../../etc/passwd'' 420 ''root'',
                            regular ''/etc/passwd'' 420 ''root'']"
  let ?run = "decompressFile exampleEnv ?cdc exampleFs ''a.zst'' ''empty''"
  let ?D = "\<lparr>Name = ''../../etc/passwd'', Typeflag = TypeReg, Mode = 420,
             Size = int (length ''root'')\<rparr>"
  let ?A = "\<lparr>Name = ''/etc/passwd'', Typeflag = TypeReg, Mode = 420, Size = 4\<rparr>"
  have h: "Getwd exampleEnv = Some ''/w''" "''/w'' \<noteq> []" "hd ''/w'' = CHR ''/''"
    by (simp_all add: exampleEnv_def)
  have J: "?R = Join [''/w'', ''empty'']" by code_simp
  have loc: "locationOf ?R = [''w'', ''empty'']" by code_simp
  have root: "lookup exampleFs (locationOf ?R) = Some (Directory 448 [])"
    unfolding loc by (simp add: exampleFs_def)
  have below: "\<forall>q. strict_prefix (locationOf ?R) q \<longrightarrow> lookup exampleFs q = None"
  proof (intro allI impI)
    fix q
    assume "strict_prefix (locationOf ?R) q"
    then obtain r where "q = locationOf ?R @ r" "r \<noteq> []"
      by (auto simp: strict_prefix_def prefix_def)
    then show "lookup exampleFs q = None"
      using root by (cases r) (auto simp: lookup_append)
  qed
  note t = Unpack_traversal_skipped_absolute_confined[OF h J]
  have c: "Contains (Name ?D) ''..''" by (simp add: HasPrefix_def)
  have "extractEntries exampleEnv ?R exampleFs (Entry ?D ''root'' # [regular ''f'' 420 ''A'']) 0
     = extractEntries exampleEnv ?R exampleFs [regular ''f'' 420 ''A''] 0"
    using t[of ?D exampleFs "''root''" "[regular ''f'' 420 ''A'']" 0, THEN conjunct1] c
    by (rule mp)
  then have 1: "extractEntries exampleEnv ?R exampleFs
       [regular ''../../etc/passwd'' 420 ''root'', regular ''f'' 420 ''A''] 0
     = extractEntries exampleEnv ?R exampleFs [regular ''f'' 420 ''A''] 0"
    unfolding regular_def[of "''../../etc/passwd''"] .
  note tA = t[of ?A exampleFs "''root''" "[]" 0 "''/''" "''etc/passwd''" True 448 "[]"
              "[regular ''/etc/passwd'' 420 ''root'']" ?cdc exampleFs "''a.zst''"
              "fst ?run" "snd ?run"]
  have "extractEntry exampleEnv ?R exampleFs (?A\<lparr>Name := ''/'' @ ''etc/passwd''\<rparr>) ''root'' True
         = extractEntry exampleEnv ?R exampleFs (?A\<lparr>Name := ''etc/passwd''\<rparr>) ''root'' True"
    using tA[THEN conjunct2, THEN conjunct1] by simp
  then have 2: "extractEntry exampleEnv ?R exampleFs ?A ''root'' True
       = extractEntry exampleEnv ?R exampleFs
           \<lparr>Name = ''etc/passwd'', Typeflag = TypeReg, Mode = 420, Size = 4\<rparr> ''root'' True"
    by simp
  have s: "sanitizeExtractPath Posix (Name ?A) = ''etc/passwd''" by code_simp
  have 3: "accepted ?R ?A"
    using tA[THEN conjunct2, THEN conjunct2, THEN conjunct1] unfolding s loc by simp
  have tlA: "targetLocation ?R ?A = [''w'', ''empty'', ''etc'', ''passwd'']" by code_simp
  have cm: "creationMode exampleEnv (Mode ?A) = 420" by code_simp
  have 45: "snd (extractEntry exampleEnv ?R exampleFs ?A ''root'' True) = Inr 1
         \<and> stat (fst (extractEntry exampleEnv ?R exampleFs ?A ''root'' True)) (targetLocation ?R ?A)
             = Some (IsFile (creationMode exampleEnv (Mode ?A)) ''root'')"
    using tA[THEN conjunct2, THEN conjunct2, THEN conjunct2, THEN conjunct1] root 3 below
    by simp
  have ex: "stat exampleFs [''etc'', ''passwd''] = Some (IsFile 420 ''secret'')"
    by (simp add: stat_def exampleFs_def)
  have "unchangedOutside (locationOf ?R) exampleFs
          (fst (extractEntries exampleEnv ?R exampleFs [regular ''/etc/passwd'' 420 ''root''] 0))"
    using tA[THEN conjunct2, THEN conjunct2, THEN conjunct2, THEN conjunct2, THEN conjunct1] root
    by simp
  then have 6: "stat (fst (extractEntries exampleEnv ?R exampleFs
                 [regular ''/etc/passwd'' 420 ''root''] 0)) [''etc'', ''passwd'']
       = Some (IsFile 420 ''secret'')"
    unfolding unchangedOutside_def loc using ex by (simp add: strict_prefix_def)
  have run: "?run = (fst ?run, snd ?run)" by simp
  have "stat (fst ?run) [''etc'', ''passwd''] = stat exampleFs [''etc'', ''passwd'']"
    using tA[THEN conjunct2, THEN conjunct2, THEN conjunct2, THEN conjunct2, THEN conjunct2]
      run unfolding loc by simp
  then have 7: "stat (fst ?run) [''etc'', ''passwd''] = Some (IsFile 420 ''secret'')"
    using ex by simp
  show ?thesis
    using 1 2 3 45[unfolded tlA cm] 6 7 by (intro conjI) simp_all
qed

text \<open>
  The claim as written fails for the absolute path \<^verbatim>\<open>/etc/passwd\<close>: the entry is not
  skipped, it appears on disk as \<^verbatim>\<open>etc/passwd\<close> below the destination root, and it is
  counted.
\<close>

theorem absolute_entry_extracted_counterexample:
  "snd (decompressFile exampleEnv (exampleCodec [regular ''/etc/passwd'' 420 ''root''])
          exampleFs ''a.zst'' ''out'') = Inr (1, ''/w/out'')
   \<and> stat (fst (decompressFile exampleEnv (exampleCodec [regular ''/etc/passwd'' 420 ''root''])
          exampleFs ''a.zst'' ''out'')) [''w'', ''out'', ''etc'', ''passwd'']
       = Some (IsFile 420 ''root'')"
  by code_simp

subsection \<open>Claim C2: the round trip\<close>

text \<open>
  Claim C2, as amended. Let the working directory be an absolute, clean path of a directory
  that is there; let the sources be plain names in it (valid names without a backslash,
  without a byte of \<^verbatim>\<open><>:"|?*\<close> and without \<^verbatim>\<open>..\<close> inside), each naming a regular file
  (of any length, zero included) or an empty directory; let the archive be a valid name that
  is not in use in the working directory and is not a source, the destination another valid
  name, and let the codec decode the stream it has encoded. Then \<^verbatim>\<open>compressFiles\<close>
  succeeds, \<^verbatim>\<open>decompressFile\<close> on its output succeeds and counts the regular files, below
  the destination root every source is found under its own name, with the same kind, the
  same bytes, and its mode less the bits of the mask, and nothing else is below the
  destination root.
\<close>

theorem Unpack_Pack_plain_sources:
  assumes cwd: "Getwd e = Some cwd" "hd cwd = CHR ''/''" "Clean cwd = cwd"
      and cwdDir: "lookup fs (locationOf cwd) = Some (Directory mc esc)"
      and srcs: "\<forall>n \<in> set names. plainSource e fs n"
      and out: "validName out" "out \<notin> set names" "lookup fs (locationOf cwd @ [out]) = None"
      and dest: "validName dest" "dest \<noteq> out"
      and enc: "NewWriter cdc level = Some encode"
      and dec: "NewReader cdc (encode (map (\<lambda>n. packed n (the (Stat e fs n))) names))
                  = Some (map (\<lambda>n. packed n (the (Stat e fs n))) names)"
  shows "\<exists>fs1 stats fs'.
           compressFiles e cdc fs names out level = (fs1, Inr stats)
         \<and> decompressFile e cdc fs1 out dest
             = (fs', Inr (regularCount (map (Stat e fs) names), Join [cwd, dest]))
         \<and> (\<forall>n \<in> set names.
               stat fs' (locationOf (Join [cwd, dest]) @ [n]) = map_option (unpacked e) (Stat e fs n))
         \<and> (\<forall>q. strict_prefix (locationOf (Join [cwd, dest])) q \<longrightarrow>
                 (\<forall>n \<in> set names. q \<noteq> locationOf (Join [cwd, dest]) @ [n]) \<longrightarrow>
                 stat fs' q = None)"
proof -
  let ?C = "locationOf cwd"
  let ?o = "?C @ [out]"
  let ?R = "Join [cwd, dest]"
  let ?L = "?C @ [dest]"
  let ?items = "map (\<lambda>n. packed n (the (Stat e fs n))) names"
  let ?total = "sum_list (map (\<lambda>n. payloadSize (the (Stat e fs n))) names)"
  have cne: "cwd \<noteq> []" using cwd(3) by (auto simp: Clean_def)
  have lo: "locate e t out = Inr ?o" if "lookup t ?C = Some (Directory m es)" for t m es
    using cwd that out(1) by (rule locate_child)
  have R: "?R \<noteq> []" "hd ?R = CHR ''/''" "?R = pathOf (locationOf ?R)"
    using cne cwd(2) by (rule Join_cwd_rooted)+
  have L: "locationOf ?R = ?L" using cne cwd(2) dest(1) by (rule Join_child)
  have RL: "?R = pathOf ?L" using R(3) L by simp
  have vL: "\<forall>x \<in> set ?L. validName x" using locationOf_valid[of ?R] L by simp
  have o_ne: "?o \<noteq> []" and L_ne: "?L \<noteq> []" by simp_all
  have nso: "\<not> HasSuffix out ''/''"
    using out(1) by (cases out rule: rev_cases) (auto simp: validName_def HasSuffix_def)
  have par: "lookup fs (butlast ?o) = Some (Directory mc esc)" using cwdDir by simp
  let ?cm = "creationMode e 438"
  let ?fsA = "put fs ?o (RegFile ?cm [])"
  have openA: "OpenFile e fs out True 438 = Inr ?fsA"
    using out(3) nso by (simp add: OpenFile_def lo[OF cwdDir])
  have statA: "stat ?fsA q = (if q = ?o then Some (IsFile ?cm []) else stat fs q)" for q
    using put_leaf_stat[OF o_ne par leaf_RegFile, of ?cm "[]" q] out(3) by simp
  have lookA: "lookup ?fsA ?o = Some (RegFile ?cm [])"
    using statA[of ?o] by (simp add: stat_IsFile)
  obtain esA where cwdA: "lookup ?fsA ?C = Some (Directory mc esA)"
    using stat_Directory[of ?fsA ?C fs mc esc] statA[of ?C] cwdDir by auto
  have StatA: "Stat e ?fsA n = Stat e fs n" if "n \<in> set names" for n
  proof -
    have v: "validName n" using srcs that by (simp add: plainSource_def plainName_def)
    have ne: "n \<noteq> out" using that out(2) by auto
    have "lookup ?fsA (?C @ [n]) = lookup fs (?C @ [n])"
      using ne by (intro lookup_put_other) auto
    then show ?thesis
      by (simp add: Stat_child[OF cwd cwdA v] Stat_child[OF cwd cwdDir v])
  qed
  have srcsA: "\<forall>n \<in> set names. plainSource e ?fsA n"
    using srcs StatA by (simp add: plainSource_def)
  have itemsA: "map (\<lambda>n. packed n (the (Stat e ?fsA n))) names = ?items"
    using StatA by (intro map_cong) auto
  have totalA: "sum_list (map (\<lambda>n. payloadSize (the (Stat e ?fsA n))) names) = ?total"
    using StatA by (intro arg_cong[of _ _ sum_list] map_cong) auto
  have pack: "addFiles e ?fsA names ([], 0) = ((?items, ?total), None)"
    using addFiles_plain[OF srcsA, of "([], 0)"] by (simp add: itemsA totalA)
  have StatOut: "Stat e ?fsA out = Some (RegFile ?cm [])"
    by (simp add: Stat_def lo[OF cwdA] lookA)
  have parA: "lookup ?fsA (butlast ?o) = Some (Directory mc esA)" using cwdA by simp
  let ?fs1 = "put ?fsA ?o (RegFile ?cm (encode ?items))"
  have write1: "Write e ?fsA out (encode ?items) = ?fs1"
    by (simp add: Write_def lo[OF cwdA] lookA)
  have comp: "compressFiles e cdc fs names out level
                = (?fs1, Inr \<lparr>OriginalSize = ?total, OutputFile = out\<rparr>)"
    by (simp add: compressFiles_def openA enc pack StatOut write1)
  have stat1: "stat ?fs1 q = (if q = ?o then Some (IsFile ?cm (encode ?items)) else stat fs q)" for q
    using put_leaf_stat[OF o_ne parA leaf_RegFile, of ?cm "encode ?items" q] lookA statA[of q]
    by simp
  obtain es1 where cwd1: "lookup ?fs1 ?C = Some (Directory mc es1)"
    using stat_Directory[of ?fs1 ?C fs mc esc] stat1[of ?C] cwdDir by auto
  obtain m1 e1 where rt1: "?fs1 = Directory m1 e1" using root_dir[OF cwd1] by blast
  have St1: "Stat e ?fs1 ?R = lookup ?fs1 ?L"
    unfolding RL using vL L_ne by (intro Stat_pathOf) auto
  define fsB where "fsB = (case Stat e ?fs1 ?R of Some n \<Rightarrow> RemoveAll e ?fs1 ?R | None \<Rightarrow> ?fs1)"
  have fsB: "fsB = ?fs1 \<and> lookup ?fs1 ?L = None \<or> fsB = remove ?fs1 ?L"
  proof (cases "Stat e ?fs1 ?R")
    case None
    then show ?thesis using St1 by (simp add: fsB_def)
  next
    case (Some n)
    then have "RemoveAll e ?fs1 (pathOf ?L) = remove ?fs1 ?L"
      using vL RL by (intro RemoveAll_pathOf) auto
    then show ?thesis using Some RL by (simp add: fsB_def)
  qed
  have goneB: "lookup fsB ?L = None"
    using fsB lookup_remove_below[OF L_ne, of ?fs1 "[]"] by auto
  have statB: "stat fsB q = stat ?fs1 q" if "\<not> prefix ?L q" for q
    using fsB that by (auto simp: stat_remove_frame)
  have "stat fsB ?C = stat fs ?C" using statB[of ?C] stat1[of ?C] by simp
  then obtain esB where parB: "lookup fsB ?C = Some (Directory mc esB)"
    using stat_Directory[of fsB ?C fs mc esc] cwdDir by auto
  obtain mB eB where rtB: "fsB = Directory mB eB" using root_dir[OF parB] by blast
  let ?fs2 = "put fsB ?L (Directory (creationMode e 493) [])"
  have mk: "MkdirAll e fsB ?R 493 = Inr ?fs2"
    unfolding RL using MkdirAll_pathOf[OF vL rtB, of e 493] mkdirAll_one_level[OF parB goneB]
    by simp
  have parB': "lookup fsB (butlast ?L) = Some (Directory mc esB)" using parB by simp
  have fresh: "lookup ?fs2 (locationOf ?R) = Some (Directory (creationMode e 493) [])"
    unfolding L using L_ne parB' by (rule lookup_put_same)
  have np: "\<not> prefix ?L ?o" using dest(2) by simp
  then have so: "stat ?fs2 ?o = Some (IsFile ?cm (encode ?items))"
    using statB[of ?o] stat1[of ?o] by (simp add: stat_put_frame)
  have "\<not> prefix ?L ?C" by simp
  then have "stat ?fs2 ?C = stat fs ?C"
    using statB[of ?C] stat1[of ?C] by (simp add: stat_put_frame)
  then obtain es2 where cwd2: "lookup ?fs2 ?C = Some (Directory mc es2)"
    using stat_Directory[of ?fs2 ?C fs mc esc] cwdDir by auto
  have read: "Open e ?fs2 out = Some (RegFile ?cm (encode ?items))"
    using so by (simp add: Open_def lo[OF cwd2] stat_IsFile)
  have L3: "locationOf ?R \<noteq> []" using L by simp
  have empty: "\<forall>n \<in> set names. stat ?fs2 (locationOf ?R @ [n]) = None
                 \<or> stat ?fs2 (locationOf ?R @ [n]) = map_option (unpacked e) (Stat e fs n)"
    using fresh by (simp add: stat_def lookup_append)
  obtain fs' where
        run: "extractEntries e ?R ?fs2 ?items 0
              = (fs', Inr (0 + regularCount (map (Stat e fs) names), ?R))"
    and all: "\<forall>n \<in> set names.
                stat fs' (locationOf ?R @ [n]) = map_option (unpacked e) (Stat e fs n)"
    and others: "\<forall>q. (\<forall>n \<in> set names. q \<noteq> locationOf ?R @ [n]) \<longrightarrow> stat fs' q = stat ?fs2 q"
    using extract_packed[OF R(1,2) L3 srcs subset_refl fresh empty, of 0] by blast
  have decomp: "decompressFile e cdc ?fs1 out dest
                  = (fs', Inr (regularCount (map (Stat e fs) names), ?R))"
    using run
    unfolding decompressFile_def cwd(1) option.case Let_def fsB_def[symmetric] mk sum.case
      read node.case dec
    by simp
  have none_else: "\<forall>q. strict_prefix (locationOf ?R) q \<longrightarrow>
                   (\<forall>n \<in> set names. q \<noteq> locationOf ?R @ [n]) \<longrightarrow> stat fs' q = None"
  proof (intro allI impI)
    fix q
    assume sp: "strict_prefix (locationOf ?R) q"
       and nn: "\<forall>n \<in> set names. q \<noteq> locationOf ?R @ [n]"
    obtain r where r: "q = locationOf ?R @ r" "r \<noteq> []"
      using sp by (auto simp: strict_prefix_def prefix_def)
    have "lookup ?fs2 q = None"
      unfolding r(1) using fresh r(2) by (cases r) (auto simp: lookup_append)
    then show "stat fs' q = None" using others nn by (simp add: stat_def)
  qed
  let ?stats = "\<lparr>OriginalSize = ?total, OutputFile = out\<rparr>"
  have "compressFiles e cdc fs names out level = (?fs1, Inr ?stats)
         \<and> decompressFile e cdc ?fs1 out dest
             = (fs', Inr (regularCount (map (Stat e fs) names), Join [cwd, dest]))
         \<and> (\<forall>n \<in> set names.
               stat fs' (locationOf (Join [cwd, dest]) @ [n]) = map_option (unpacked e) (Stat e fs n))
         \<and> (\<forall>q. strict_prefix (locationOf (Join [cwd, dest])) q \<longrightarrow>
                 (\<forall>n \<in> set names. q \<noteq> locationOf (Join [cwd, dest]) @ [n]) \<longrightarrow>
                 stat fs' q = None)"
    using comp decomp all none_else by (intro conjI)
  then show ?thesis
    by (intro exI[of _ ?fs1] exI[of _ ?stats] exI[of _ fs'])
qed

theorem Unpack_Pack_plain_sources_witness:
  "\<exists>fs1 stats fs'.
      compressFiles exampleEnv (exampleCodec plainStream) exampleFs [''f.txt'', ''empty''] ''b.zst'' 3
        = (fs1, Inr stats)
    \<and> decompressFile exampleEnv (exampleCodec plainStream) fs1 ''b.zst'' ''out''
        = (fs', Inr (1, ''/w/out''))
    \<and> stat fs' [''w'', ''out'', ''f.txt''] = Some (IsFile 384 ''data'')
    \<and> stat fs' [''w'', ''out'', ''empty''] = Some (IsDir 448)
    \<and> stat fs' [''w'', ''out'', ''b.zst''] = None"
proof -
  let ?names = "[''f.txt'', ''empty'']"
  have cwd: "Getwd exampleEnv = Some ''/w''" "hd ''/w'' = CHR ''/''" "Clean ''/w'' = ''/w''"
    by (simp_all add: exampleEnv_def) code_simp
  have lw: "locationOf ''/w'' = [''w'']" by code_simp
  obtain es where cwdDir: "lookup exampleFs (locationOf ''/w'') = Some (Directory 493 es)"
    unfolding lw by (simp add: exampleFs_def)
  have s1: "plainSource exampleEnv exampleFs ''f.txt''" by code_simp
  have s2: "plainSource exampleEnv exampleFs ''empty''" by code_simp
  have srcs: "\<forall>n \<in> set ?names. plainSource exampleEnv exampleFs n" using s1 s2 by simp
  have out: "validName ''b.zst''" "''b.zst'' \<notin> set ?names"
            "lookup exampleFs (locationOf ''/w'' @ [''b.zst'']) = None"
    unfolding lw by (simp_all add: validName_def exampleFs_def)
  have dest: "validName ''out''" "''out'' \<noteq> ''b.zst''" by (simp_all add: validName_def)
  have enc: "NewWriter (exampleCodec plainStream) 3 = Some (\<lambda>s. ''Z'')"
    by (simp add: exampleCodec_def)
  have dec: "NewReader (exampleCodec plainStream)
               ((\<lambda>s. ''Z'') (map (\<lambda>n. packed n (the (Stat exampleEnv exampleFs n))) ?names))
             = Some (map (\<lambda>n. packed n (the (Stat exampleEnv exampleFs n))) ?names)"
    by (simp add: exampleCodec_def plainStream_def)
  have J: "Join [''/w'', ''out''] = ''/w/out''" by code_simp
  have L: "locationOf ''/w/out'' = [''w'', ''out'']" by code_simp
  have c: "regularCount (map (Stat exampleEnv exampleFs) ?names) = 1" by code_simp
  have u1: "map_option (unpacked exampleEnv) (Stat exampleEnv exampleFs ''f.txt'')
              = Some (IsFile 384 ''data'')" by code_simp
  have u2: "map_option (unpacked exampleEnv) (Stat exampleEnv exampleFs ''empty'')
              = Some (IsDir 448)" by code_simp
  from Unpack_Pack_plain_sources[OF cwd cwdDir srcs out dest enc dec]
  obtain fs1 stats fs' where
        "compressFiles exampleEnv (exampleCodec plainStream) exampleFs ?names ''b.zst'' 3
           = (fs1, Inr stats)"
    and "decompressFile exampleEnv (exampleCodec plainStream) fs1 ''b.zst'' ''out''
           = (fs', Inr (regularCount (map (Stat exampleEnv exampleFs) ?names), Join [''/w'', ''out'']))"
    and "\<forall>n \<in> set ?names.
           stat fs' (locationOf (Join [''/w'', ''out'']) @ [n])
             = map_option (unpacked exampleEnv) (Stat exampleEnv exampleFs n)"
    and "\<forall>q. strict_prefix (locationOf (Join [''/w'', ''out''])) q \<longrightarrow>
           (\<forall>n \<in> set ?names. q \<noteq> locationOf (Join [''/w'', ''out'']) @ [n]) \<longrightarrow>
           stat fs' q = None"
    by blast
  then have "compressFiles exampleEnv (exampleCodec plainStream) exampleFs ?names ''b.zst'' 3
               = (fs1, Inr stats)
           \<and> decompressFile exampleEnv (exampleCodec plainStream) fs1 ''b.zst'' ''out''
               = (fs', Inr (1, ''/w/out''))
           \<and> stat fs' [''w'', ''out'', ''f.txt''] = Some (IsFile 384 ''data'')
           \<and> stat fs' [''w'', ''out'', ''empty''] = Some (IsDir 448)
           \<and> stat fs' [''w'', ''out'', ''b.zst''] = None"
    unfolding J L c using u1 u2 by (simp add: strict_prefix_def)
  then show ?thesis by (intro exI)
qed

text \<open>
  The claim as written fails for a regular file whose name is not plain: the file
  \<^verbatim>\<open>a?b\<close> is stored as \<^verbatim>\<open>a_b\<close> by the outbound sanitizer, so after the round trip there
  is no \<^verbatim>\<open>a?b\<close> under the destination root; its bytes are found under \<^verbatim>\<open>a_b\<close>.
\<close>

theorem roundtrip_renames_counterexample:
  "stat (fst (decompressFile exampleEnv (exampleCodec queryStream)
                (fst (compressFiles exampleEnv (exampleCodec queryStream) exampleFs
                        [''a?b''] ''b.zst'' 3))
                ''b.zst'' ''out'')) [''w'', ''out'', ''a?b''] = None
   \<and> stat (fst (decompressFile exampleEnv (exampleCodec queryStream)
                (fst (compressFiles exampleEnv (exampleCodec queryStream) exampleFs
                        [''a?b''] ''b.zst'' 3))
                ''b.zst'' ''out'')) [''w'', ''out'', ''a_b''] = Some (IsFile 420 ''query'')
   \<and> stat exampleFs [''w'', ''a?b''] = Some (IsFile 420 ''query'')"
  by code_simp

subsection \<open>Claim C3: a rejected entry does not abort the extraction\<close>

text \<open>
  Claim C3, as amended. The loop runs in an absolute output directory that is there, as
  \<^verbatim>\<open>decompressFile\<close> has made it. Let the stream hold one entry that is not accepted (the
  sanitizer returns the empty name for it, or the joined path fails the prefix check),
  followed by entries that on their own extract without an error. Then the whole stream
  extracts without an error too, and with the same result: the rejected entry is skipped,
  the file system is the one the other entries alone produce, and the count is theirs, the
  number of regular entries among them that are accepted. A directory entry is made but not
  counted, so \<open>N\<close> valid entries give the count \<open>N\<close> when all of them are regular. On disk,
  every accepted regular entry that no later entry writes to again has left a regular file
  at its target that begins with its payload; when nothing was at the target before the run
  and no earlier entry writes to it, the file holds exactly the payload and has the mode of
  the entry less the bits of the mask. Every accepted directory entry has left a directory at
  its target.
\<close>

theorem Unpack_skips_rejected_entry:
  assumes R: "R \<noteq> []" "hd R = CHR ''/''"
      and root: "lookup fs (locationOf R) = Some (Directory mR esR)"
      and bad: "\<not> accepted R bad"
      and ok: "extractEntries e R fs rest 0 = (fs', Inr res)"
  shows
   "extractEntries e R fs (Entry bad payload # rest) 0
      = (fs', Inr (int (length (filter (counted R) rest)), R))
  \<and> ((\<forall>item \<in> set rest. counted R item) \<longrightarrow>
        int (length (filter (counted R) rest)) = int (length rest))
  \<and> (\<forall>pre hdr p post.
        rest = pre @ Entry hdr p # post \<longrightarrow> accepted R hdr \<longrightarrow>
          (Typeflag hdr = TypeReg \<longrightarrow>
           (\<forall>item \<in> set post. \<not> writes R (targetLocation R hdr) item) \<longrightarrow>
             (\<exists>m old. stat fs' (targetLocation R hdr)
                        = Some (IsFile m (p @ drop (length p) old)))
           \<and> (lookup fs (targetLocation R hdr) = None \<longrightarrow>
              (\<forall>item \<in> set pre. \<not> writes R (targetLocation R hdr) item) \<longrightarrow>
                stat fs' (targetLocation R hdr) = Some (IsFile (creationMode e (Mode hdr)) p)))
        \<and> (Typeflag hdr = TypeDir \<longrightarrow>
             (\<exists>m. stat fs' (targetLocation R hdr) = Some (IsDir m))))"
proof -
  obtain k r where res: "res = (k, r)" by (cases res) auto
  have "k = 0 + int (length (filter (counted R) rest)) \<and> r = R"
    using ok unfolding res by (rule extractEntries_count)
  then have 1: "extractEntries e R fs (Entry bad payload # rest) 0
      = (fs', Inr (int (length (filter (counted R) rest)), R))"
    unfolding extractEntries_skip[OF bad] using ok res by simp
  have 2: "(\<forall>item \<in> set rest. counted R item) \<longrightarrow>
        int (length (filter (counted R) rest)) = int (length rest)"
    by simp
  have 3: "\<forall>pre hdr p post.
        rest = pre @ Entry hdr p # post \<longrightarrow> accepted R hdr \<longrightarrow>
          (Typeflag hdr = TypeReg \<longrightarrow>
           (\<forall>item \<in> set post. \<not> writes R (targetLocation R hdr) item) \<longrightarrow>
             (\<exists>m old. stat fs' (targetLocation R hdr)
                        = Some (IsFile m (p @ drop (length p) old)))
           \<and> (lookup fs (targetLocation R hdr) = None \<longrightarrow>
              (\<forall>item \<in> set pre. \<not> writes R (targetLocation R hdr) item) \<longrightarrow>
                stat fs' (targetLocation R hdr) = Some (IsFile (creationMode e (Mode hdr)) p)))
        \<and> (Typeflag hdr = TypeDir \<longrightarrow>
             (\<exists>m. stat fs' (targetLocation R hdr) = Some (IsDir m)))"
  proof (intro allI impI)
    fix pre hdr p post
    assume split: "rest = pre @ Entry hdr p # post" and acc: "accepted R hdr"
    have run: "extractEntries e R fs (pre @ Entry hdr p # post) 0 = (fs', Inr res)"
      using ok split by simp
    note content = extractEntries_content[OF R root run acc]
    show "(Typeflag hdr = TypeReg \<longrightarrow>
           (\<forall>item \<in> set post. \<not> writes R (targetLocation R hdr) item) \<longrightarrow>
             (\<exists>m old. stat fs' (targetLocation R hdr)
                        = Some (IsFile m (p @ drop (length p) old)))
           \<and> (lookup fs (targetLocation R hdr) = None \<longrightarrow>
              (\<forall>item \<in> set pre. \<not> writes R (targetLocation R hdr) item) \<longrightarrow>
                stat fs' (targetLocation R hdr) = Some (IsFile (creationMode e (Mode hdr)) p)))
        \<and> (Typeflag hdr = TypeDir \<longrightarrow>
             (\<exists>m. stat fs' (targetLocation R hdr) = Some (IsDir m)))"
      using content by blast
  qed
  show ?thesis using 1 2 3 by (intro conjI)
qed

theorem Unpack_skips_rejected_entry_witness:
  "snd (extractEntries exampleEnv ''/w/d'' exampleFs
          [regular ''../evil'' 420 ''x'', directory ''g/'' 493, regular ''g/h'' 420 ''B'',
           regular ''f'' 420 ''A''] 0)
     = Inr (2, ''/w/d'')
   \<and> fst (extractEntries exampleEnv ''/w/d'' exampleFs
          [regular ''../evil'' 420 ''x'', directory ''g/'' 493, regular ''g/h'' 420 ''B'',
           regular ''f'' 420 ''A''] 0)
     = fst (extractEntries exampleEnv ''/w/d'' exampleFs
          [directory ''g/'' 493, regular ''g/h'' 420 ''B'', regular ''f'' 420 ''A''] 0)
   \<and> stat (fst (extractEntries exampleEnv ''/w/d'' exampleFs
          [directory ''g/'' 493, regular ''g/h'' 420 ''B'', regular ''f'' 420 ''A''] 0))
        [''w'', ''d'', ''g'', ''h'']
     = Some (IsFile 420 ''B'')
   \<and> (\<exists>m. stat (fst (extractEntries exampleEnv ''/w/d'' exampleFs
          [directory ''g/'' 493, regular ''g/h'' 420 ''B'', regular ''f'' 420 ''A''] 0))
        [''w'', ''d'', ''g'']
     = Some (IsDir m))"
proof -
  let ?R = "''/w/d''"
  let ?bad = "\<lparr>Name = ''../evil'', Typeflag = TypeReg, Mode = 420, Size = int (length ''x'')\<rparr>"
  let ?g = "\<lparr>Name = ''g/'', Typeflag = TypeDir, Mode = 493, Size = 0\<rparr>"
  let ?h = "\<lparr>Name = ''g/h'', Typeflag = TypeReg, Mode = 420, Size = int (length ''B'')\<rparr>"
  let ?f = "\<lparr>Name = ''f'', Typeflag = TypeReg, Mode = 420, Size = int (length ''A'')\<rparr>"
  let ?rest = "[directory ''g/'' 493, regular ''g/h'' 420 ''B'', regular ''f'' 420 ''A'']"
  let ?run = "extractEntries exampleEnv ?R exampleFs ?rest 0"
  have R: "?R \<noteq> []" "hd ?R = CHR ''/''" by simp_all
  have lw: "locationOf ?R = [''w'', ''d'']" by code_simp
  obtain es where root: "lookup exampleFs (locationOf ?R) = Some (Directory 493 es)"
    unfolding lw by (simp add: exampleFs_def)
  have bad: "\<not> accepted ?R ?bad" by code_simp
  have ag: "accepted ?R ?g" by code_simp
  have ah: "accepted ?R ?h" by code_simp
  have af: "accepted ?R ?f" by code_simp
  have tg: "targetLocation ?R ?g = [''w'', ''d'', ''g'']" by code_simp
  have th: "targetLocation ?R ?h = [''w'', ''d'', ''g'', ''h'']" by code_simp
  have tf: "targetLocation ?R ?f = [''w'', ''d'', ''f'']" by code_simp
  have cm: "creationMode exampleEnv (Mode ?h) = 420" by code_simp
  have "snd ?run = Inr (2, ?R)" by code_simp
  then have ok: "?run = (fst ?run, Inr (2, ?R))" by (simp add: prod_eq_iff)
  note t = Unpack_skips_rejected_entry[OF R root bad ok, of "''x''"]
  have cnt: "int (length (filter (counted ?R) ?rest)) = 2"
    using ag ah af by (simp add: counted_def regular_def directory_def)
  have "extractEntries exampleEnv ?R exampleFs (Entry ?bad ''x'' # ?rest) 0
          = (fst ?run, Inr (2, ?R))"
    using t[THEN conjunct1] unfolding cnt .
  then have 1: "extractEntries exampleEnv ?R exampleFs
          (regular ''../evil'' 420 ''x'' # ?rest) 0 = (fst ?run, Inr (2, ?R))"
    by (simp add: regular_def)
  have sh: "?rest = [directory ''g/'' 493] @ Entry ?h ''B'' # [regular ''f'' 420 ''A'']"
    by (simp add: regular_def)
  have sg: "?rest = [] @ Entry ?g [] # [regular ''g/h'' 420 ''B'', regular ''f'' 420 ''A'']"
    by (simp add: directory_def)
  have post: "\<forall>item \<in> set [regular ''f'' 420 ''A'']. \<not> writes ?R (targetLocation ?R ?h) item"
    unfolding th using tf by (simp add: writes_def regular_def)
  have pre: "\<forall>item \<in> set [directory ''g/'' 493]. \<not> writes ?R (targetLocation ?R ?h) item"
    by (simp add: writes_def directory_def)
  have fresh: "lookup exampleFs (targetLocation ?R ?h) = None"
    unfolding th by (simp add: exampleFs_def)
  have regh: "Typeflag ?h = TypeReg" by simp
  have dirg: "Typeflag ?g = TypeDir" by simp
  have "stat (fst ?run) (targetLocation ?R ?h) = Some (IsFile (creationMode exampleEnv (Mode ?h)) ''B'')"
    using t[THEN conjunct2, THEN conjunct2, THEN spec, THEN spec, THEN spec, THEN spec,
            THEN mp, THEN mp, OF sh ah, THEN conjunct1, THEN mp, THEN mp, OF regh post,
            THEN conjunct2, THEN mp, THEN mp, OF fresh pre] .
  then have 2: "stat (fst ?run) [''w'', ''d'', ''g'', ''h''] = Some (IsFile 420 ''B'')"
    unfolding th cm .
  have "\<exists>m. stat (fst ?run) (targetLocation ?R ?g) = Some (IsDir m)"
    using t[THEN conjunct2, THEN conjunct2, THEN spec, THEN spec, THEN spec, THEN spec,
            THEN mp, THEN mp, OF sg ag, THEN conjunct2, THEN mp, OF dirg] .
  then have 3: "\<exists>m. stat (fst ?run) [''w'', ''d'', ''g''] = Some (IsDir m)"
    unfolding tg .
  show ?thesis using 1 2 3 by simp
qed

text \<open>
  The claim as written fails in two ways. A directory entry is valid and is not counted:
  after the rejected entry, the directory \<^verbatim>\<open>g/\<close> and the file \<^verbatim>\<open>g/h\<close> are two valid
  entries, and the count is 1. And valid entries need not extract: after the rejected
  entry, the file \<^verbatim>\<open>f\<close> and the file \<^verbatim>\<open>f/g\<close> both get past the two guards, and the run
  fails at the second, which needs a directory where the first has put a file.
\<close>

theorem valid_entries_not_all_counted_counterexample:
  "snd (decompressFile exampleEnv
          (exampleCodec [regular ''../evil'' 420 ''x'', directory ''g/'' 493,
                         regular ''g/h'' 420 ''B''])
          exampleFs ''a.zst'' ''out'') = Inr (1, ''/w/out'')
   \<and> accepted ''/w/out'' \<lparr>Name = ''g/'', Typeflag = TypeDir, Mode = 493, Size = 0\<rparr>
   \<and> accepted ''/w/out'' \<lparr>Name = ''g/h'', Typeflag = TypeReg, Mode = 420, Size = 1\<rparr>
   \<and> snd (decompressFile exampleEnv
          (exampleCodec [regular ''../evil'' 420 ''x'', regular ''f'' 420 ''A'',
                         regular ''f/g'' 420 ''B''])
          exampleFs ''a.zst'' ''out'') = Inl (FailedCreateDirectory ENOTDIR)
   \<and> accepted ''/w/out'' \<lparr>Name = ''f'', Typeflag = TypeReg, Mode = 420, Size = 1\<rparr>
   \<and> accepted ''/w/out'' \<lparr>Name = ''f/g'', Typeflag = TypeReg, Mode = 420, Size = 1\<rparr>"
  by code_simp

subsection \<open>Claim C4: two entries for one path\<close>

text \<open>
  Claim C4 describes what the code is after and misses: the target is opened with
  \<^verbatim>\<open>O_CREATE|O_RDWR\<close> and without \<^verbatim>\<open>O_TRUNC\<close>, so a file that is already there keeps
  its bytes beyond those written and keeps its mode. For a stream with the entries
  \<^verbatim>\<open>f\<close> = \<^verbatim>\<open>AAAA\<close> (mode 0644) and then \<^verbatim>\<open>f\<close> = \<^verbatim>\<open>BB\<close> (mode 0600), both are counted and
  the file ends as \<^verbatim>\<open>BBAA\<close> with mode 0644, not as \<^verbatim>\<open>BB\<close>.
\<close>

theorem duplicate_entry_keeps_tail:
  "snd (decompressFile exampleEnv
          (exampleCodec [regular ''f'' 420 ''AAAA'', regular ''f'' 384 ''BB''])
          exampleFs ''a.zst'' ''out'') = Inr (2, ''/w/out'')
   \<and> stat (fst (decompressFile exampleEnv
                 (exampleCodec [regular ''f'' 420 ''AAAA'', regular ''f'' 384 ''BB''])
                 exampleFs ''a.zst'' ''out'')) [''w'', ''out'', ''f'']
       = Some (IsFile 420 ''BBAA'')"
  by code_simp

subsection \<open>Claim C5: a stored path with a drive letter\<close>




subsection \<open>Claim C6: the stored path\<close>

text \<open>
  Claim C6 describes what the code is after and misses. For the directory \<^verbatim>\<open>d\<close> given as
  a source, the walk reaches \<^verbatim>\<open>d/x\<close>; the callback takes the path relative to the parent
  of the source, which is \<^verbatim>\<open>d/x\<close> already, and joins the base name of the source in front
  of it: the stored path is \<^verbatim>\<open>d/d/x\<close>, not \<^verbatim>\<open>d/x\<close>. The root of a walk is stored
  under the path it was given by, so the single file \<^verbatim>\<open>d/x\<close> given as a source is stored
  as \<^verbatim>\<open>d/x\<close>, not under its base name \<^verbatim>\<open>x\<close>.
\<close>

theorem stored_path_repeats_base_name:
  "addFiles exampleEnv exampleFs [''d''] ([], 0)
     = (([Entry \<lparr>Name = ''d'', Typeflag = TypeDir, Mode = 493, Size = 0\<rparr> [],
          Entry \<lparr>Name = ''d/d/e'', Typeflag = TypeDir, Mode = 448, Size = 0\<rparr> [],
          Entry \<lparr>Name = ''d/d/x'', Typeflag = TypeReg, Mode = 420, Size = 5\<rparr> ''hello''], 5),
        None)
   \<and> addFiles exampleEnv exampleFs [''d/x''] ([], 0)
     = (([Entry \<lparr>Name = ''d/x'', Typeflag = TypeReg, Mode = 420, Size = 5\<rparr> ''hello''], 5),
        None)"
  by code_simp

subsection \<open>Claim C7: no source paths\<close>

text \<open>
  Claim C7. A compression request with an empty list of files is answered with the failure
  \<^verbatim>\<open>No files selected\<close>, and the file system is as it was: no output file is created and
  \<^verbatim>\<open>compressFiles\<close> is not entered.
\<close>

theorem handleCompress_no_files:
  "handleCompress e cdc fs ''POST'' (Some \<lparr>Files = [], Output = output, Level = level\<rparr>)
     = (fs, Response False NoFilesSelected None)"
  by (simp add: handleCompress_def)

theorem handleCompress_no_files_witness:
  "handleCompress exampleEnv (exampleCodec []) exampleFs ''POST''
     (Some \<lparr>Files = [], Output = ''b.zst'', Level = 3\<rparr>)
     = (exampleFs, Response False NoFilesSelected None)
   \<and> stat exampleFs [''w'', ''b.zst''] = None"
  using handleCompress_no_files[of exampleEnv "exampleCodec []" exampleFs "''b.zst''" 3]
  by (simp add: stat_def exampleFs_def)

subsection \<open>Claim C8: names on a host with a restrictive character set\<close>

text \<open>
  Claim C8, as amended. On a host whose separator is the backslash, let \<open>q\<close> be a stored
  name that does not begin with a separator and is not rejected (it is not empty, not made of
  dots only, and has no \<^verbatim>\<open>..\<close> inside). Whether the entry stores \<open>q\<close> itself (with no colon
  as its second byte) or \<open>q\<close> behind a two-byte prefix \<open>d:\<close>, the sanitizer does not
  reject it: the name it returns is \<open>q\<close> with every slash turned into a backslash and every
  byte of \<^verbatim>\<open><>:"|?*\<close> replaced by an underscore, it is not empty, and none of these bytes
  is left in it. The prefix \<open>d:\<close> is dropped, not rewritten.
\<close>

theorem sanitizeExtractPath_restrictive_charset:
  assumes q: "q \<noteq> []" "hd q \<noteq> CHR ''/''" "hd q \<noteq> Backslash"
      and keep: "Trim q ''.'' \<noteq> []" "\<not> Contains q ''..''"
      and path: "path = q \<and> \<not> (2 \<le> length q \<and> q ! 1 = CHR '':'') \<or> path = d # CHR '':'' # q"
  shows "sanitizeExtractPath Windows path =
           ReplaceAllString invalidChars (ReplaceAll q (CHR ''/'') Backslash) (CHR ''_'')
         \<and> sanitizeExtractPath Windows path \<noteq> []
         \<and> (\<forall>c \<in> set (sanitizeExtractPath Windows path). c \<notin> set invalidChars)"
proof -
  have strip: "TrimLeft (if 2 \<le> length path \<and> path ! 1 = CHR '':'' then drop 2 path else path)
                 [CHR ''/'', Backslash] = q"
    using path q by (auto simp: TrimLeft_id)
  have eq: "sanitizeExtractPath Windows path =
           ReplaceAllString invalidChars (ReplaceAll q (CHR ''/'') Backslash) (CHR ''_'')"
    using q(1) keep
    by (simp only: sanitizeExtractPath_def Let_def strip) (simp add: FromSlash_def)
  have ne: "sanitizeExtractPath Windows path \<noteq> []"
    unfolding eq using q(1) by (simp add: ReplaceAllString_def ReplaceAll_def)
  show ?thesis
    using eq ne sanitizeExtractPath_Windows_chars by blast
qed

theorem sanitizeExtractPath_restrictive_charset_witness:
  "sanitizeExtractPath Windows ''ab*c?.txt'' = ''ab_c_.txt''
   \<and> sanitizeExtractPath Windows ''x:b*c/d.txt'' = ''b_c'' @ [Backslash] @ ''d.txt''"
  using sanitizeExtractPath_restrictive_charset
          [of "''ab*c?.txt''" "''ab*c?.txt''" "CHR ''a''"]
        sanitizeExtractPath_restrictive_charset
          [of "''b*c/d.txt''" "''x:b*c/d.txt''" "CHR ''x''"]
  by (simp add: Trim_def TrimLeft_def TrimRight_def HasPrefix_def ReplaceAllString_def
        ReplaceAll_def invalidChars_def)

text \<open>
  The claim as written fails at its own example: the first two bytes of \<^verbatim>\<open>a:b*c.txt\<close> are
  taken for a drive letter and dropped, so the name is \<^verbatim>\<open>b_c.txt\<close> and not the stored name
  with its illegal bytes replaced, which would be \<^verbatim>\<open>a_b_c.txt\<close>.
\<close>

theorem sanitizeExtractPath_drive_colon_counterexample:
  "sanitizeExtractPath Windows ''a:b*c.txt'' = ''b_c.txt''
   \<and> sanitizeExtractPath Windows ''a:b*c.txt''
       \<noteq> ReplaceAllString invalidChars ''a:b*c.txt'' (CHR ''_'')"
  by (simp add: sanitizeExtractPath_def Trim_def TrimLeft_def TrimRight_def HasPrefix_def
        FromSlash_def ReplaceAllString_def ReplaceAll_def invalidChars_def)

subsection \<open>Claim C9: what the sanitizer returns, and where entries are written\<close>

text \<open>
  Claim C9, as amended. For every input and on either host, \<^verbatim>\<open>sanitizeExtractPath\<close>
  returns the empty string or a path that has no \<^verbatim>\<open>..\<close> inside and does not begin with a
  slash or a backslash; on a host whose separator is the backslash the path has no colon
  at all, and so no drive-letter prefix (on a POSIX host one prefix is stripped, and a
  second one stays). On a POSIX host, for an absolute output directory: the path joined for
  an entry that gets past the sanitizer and the prefix check begins with the cleaned output
  directory and a separator, it is the rendering of a location made of valid names, and that
  location is strictly below the location of the output directory; an entry that does not
  get past them changes nothing; and in an output directory that is there, the round of an
  entry that does get past them changes the file system only at locations that are strictly
  below the output directory and on the way to the target of the entry, the target included.
\<close>

theorem sanitizeExtractPath_invariants:
  "(sanitizeExtractPath os p = [] \<or>
      (\<not> Contains (sanitizeExtractPath os p) ''..''
       \<and> hd (sanitizeExtractPath os p) \<noteq> CHR ''/''
       \<and> hd (sanitizeExtractPath os p) \<noteq> Backslash
       \<and> (os = Windows \<longrightarrow> CHR '':'' \<notin> set (sanitizeExtractPath os p))))
   \<and> (R \<noteq> [] \<longrightarrow> hd R = CHR ''/'' \<longrightarrow> accepted R hdr \<longrightarrow>
        HasPrefix (Join [R, sanitizeExtractPath Posix (Name hdr)]) (Clean R @ [Separator Posix])
        \<and> Join [R, sanitizeExtractPath Posix (Name hdr)] = pathOf (targetLocation R hdr)
        \<and> (\<forall>x \<in> set (targetLocation R hdr). validName x)
        \<and> strict_prefix (locationOf R) (targetLocation R hdr))
   \<and> (\<not> accepted R hdr \<longrightarrow> extractEntry e R fs hdr payload complete = (fs, Inr 0))
   \<and> (R \<noteq> [] \<longrightarrow> hd R = CHR ''/'' \<longrightarrow> lookup fs (locationOf R) = Some (Directory m es) \<longrightarrow>
      accepted R hdr \<longrightarrow>
        (\<forall>q. stat (fst (extractEntry e R fs hdr payload complete)) q \<noteq> stat fs q \<longrightarrow>
             strict_prefix (locationOf R) q \<and> prefix q (targetLocation R hdr)))"
proof (intro conjI impI allI)
  show "sanitizeExtractPath os p = [] \<or>
      (\<not> Contains (sanitizeExtractPath os p) ''..''
       \<and> hd (sanitizeExtractPath os p) \<noteq> CHR ''/''
       \<and> hd (sanitizeExtractPath os p) \<noteq> Backslash
       \<and> (os = Windows \<longrightarrow> CHR '':'' \<notin> set (sanitizeExtractPath os p)))"
  proof (cases "sanitizeExtractPath os p = []")
    case True
    then show ?thesis by simp
  next
    case False
    have "os = Windows \<longrightarrow> CHR '':'' \<notin> set (sanitizeExtractPath os p)"
    proof
      assume w: "os = Windows"
      show "CHR '':'' \<notin> set (sanitizeExtractPath os p)"
      proof
        assume "CHR '':'' \<in> set (sanitizeExtractPath os p)"
        then have "CHR '':'' \<notin> set invalidChars"
          using sanitizeExtractPath_Windows_chars[of "CHR '':''" p] w by simp
        then show False by (simp add: invalidChars_def)
      qed
    qed
    then show ?thesis
      using sanitizeExtractPath_no_dotdot[of os p] sanitizeExtractPath_hd[OF False] by simp
  qed
next
  assume R: "R \<noteq> []" "hd R = CHR ''/''" and acc: "accepted R hdr"
  note tp = target_paths[OF R acc]
  show "HasPrefix (Join [R, sanitizeExtractPath Posix (Name hdr)]) (Clean R @ [Separator Posix])"
    using acc by (simp add: accepted_def)
  show "Join [R, sanitizeExtractPath Posix (Name hdr)] = pathOf (targetLocation R hdr)"
    by (rule tp(1))
  show "strict_prefix (locationOf R) (targetLocation R hdr)" by (rule tp(4))
  show "\<forall>x \<in> set (targetLocation R hdr). validName x" by (rule tp(3))
next
  assume "\<not> accepted R hdr"
  then show "extractEntry e R fs hdr payload complete = (fs, Inr 0)"
    by (rule extractEntry_rejected)
next
  fix q
  assume R: "R \<noteq> []" "hd R = CHR ''/''"
     and root: "lookup fs (locationOf R) = Some (Directory m es)"
     and acc: "accepted R hdr"
     and ch: "stat (fst (extractEntry e R fs hdr payload complete)) q \<noteq> stat fs q"
  have step: "extractEntry e R fs hdr payload complete
          = (fst (extractEntry e R fs hdr payload complete),
             snd (extractEntry e R fs hdr payload complete))" by simp
  note ef = extractEntry_effect[OF R root acc step]
  note tp = target_paths[OF R acc]
  have pq: "prefix q (targetLocation R hdr)" using ef(1)[of q] ch by blast
  have new: "q = targetLocation R hdr \<or> lookup fs q = None" using ef(2)[of q] ch by blast
  have "prefix (locationOf R) (targetLocation R hdr)" using tp(4) by (simp add: strict_prefix_def)
  with pq have "prefix q (locationOf R) \<or> prefix (locationOf R) q" by (rule prefix_same_cases)
  moreover have "\<not> prefix q (locationOf R)"
  proof
    assume pr: "prefix q (locationOf R)"
    then have "lookup fs q \<noteq> None" using lookup_prefix_exists[of fs "locationOf R" q] root by simp
    then have "q = targetLocation R hdr" using new by auto
    then show False using pr tp(4) by (auto simp: strict_prefix_def dest: prefix_order.antisym)
  qed
  ultimately have "strict_prefix (locationOf R) q" by (auto simp: strict_prefix_def)
  then show "strict_prefix (locationOf R) q" .
  show "prefix q (targetLocation R hdr)" by (rule pq)
qed

theorem sanitizeExtractPath_invariants_witness:
  "sanitizeExtractPath Windows ''C:/a:b/c'' = ''a_b'' @ [Backslash] @ ''c''
   \<and> CHR '':'' \<notin> set (sanitizeExtractPath Windows ''C:/a:b/c'')
   \<and> strict_prefix (locationOf ''/w/d'')
         (targetLocation ''/w/d'' \<lparr>Name = ''/g/./h'', Typeflag = TypeReg, Mode = 420, Size = 1\<rparr>)
   \<and> targetLocation ''/w/d'' \<lparr>Name = ''/g/./h'', Typeflag = TypeReg, Mode = 420, Size = 1\<rparr>
       = [''w'', ''d'', ''g'', ''h'']
   \<and> Join [''/w/d'', sanitizeExtractPath Posix ''/g/./h''] = ''/w/d/g/h''
   \<and> extractEntry exampleEnv ''/w/d'' exampleFs
         \<lparr>Name = ''../h'', Typeflag = TypeReg, Mode = 420, Size = 1\<rparr> ''B'' True
       = (exampleFs, Inr 0)
   \<and> stat (fst (extractEntry exampleEnv ''/w/d'' exampleFs
                 \<lparr>Name = ''/g/./h'', Typeflag = TypeReg, Mode = 420, Size = 1\<rparr> ''B'' True))
          [''w'', ''d'', ''x'']
       = stat exampleFs [''w'', ''d'', ''x'']"
proof -
  let ?h = "\<lparr>Name = ''/g/./h'', Typeflag = TypeReg, Mode = 420, Size = 1\<rparr>"
  let ?bad = "\<lparr>Name = ''../h'', Typeflag = TypeReg, Mode = 420, Size = 1\<rparr>"
  have v: "sanitizeExtractPath Windows ''C:/a:b/c'' = ''a_b'' @ [Backslash] @ ''c''" by code_simp
  have ne: "sanitizeExtractPath Windows ''C:/a:b/c'' \<noteq> []" unfolding v by simp
  have R: "''/w/d'' \<noteq> []" "hd ''/w/d'' = CHR ''/''" by simp_all
  have acc: "accepted ''/w/d'' ?h" by code_simp
  have bad: "\<not> accepted ''/w/d'' ?bad" by code_simp
  have tl: "targetLocation ''/w/d'' ?h = [''w'', ''d'', ''g'', ''h'']" by code_simp
  have lw: "locationOf ''/w/d'' = [''w'', ''d'']" by code_simp
  have po: "pathOf [''w'', ''d'', ''g'', ''h''] = ''/w/d/g/h''" by code_simp
  obtain es where root: "lookup exampleFs (locationOf ''/w/d'') = Some (Directory 493 es)"
    unfolding lw by (simp add: exampleFs_def)
  note t2 = sanitizeExtractPath_invariants[of Windows "''C:/a:b/c''" "''/w/d''" ?h
              exampleEnv exampleFs "''B''" True 493 es]
  have 1: "CHR '':'' \<notin> set (sanitizeExtractPath Windows ''C:/a:b/c'')"
    using t2 ne by blast
  have 2: "strict_prefix (locationOf ''/w/d'') (targetLocation ''/w/d'' ?h)"
    using t2 R acc by blast
  have "Join [''/w/d'', sanitizeExtractPath Posix (Name ?h)] = pathOf (targetLocation ''/w/d'' ?h)"
    using t2 R acc by blast
  then have 3: "Join [''/w/d'', sanitizeExtractPath Posix ''/g/./h''] = ''/w/d/g/h''"
    unfolding tl po by simp
  have 4: "extractEntry exampleEnv ''/w/d'' exampleFs ?bad ''B'' True = (exampleFs, Inr 0)"
    using sanitizeExtractPath_invariants[of Windows "''C:/a:b/c''" "''/w/d''" ?bad
              exampleEnv exampleFs "''B''" True 493 es] bad by blast
  have np: "\<not> prefix [''w'', ''d'', ''x''] (targetLocation ''/w/d'' ?h)"
    unfolding tl by simp
  have 5: "stat (fst (extractEntry exampleEnv ''/w/d'' exampleFs ?h ''B'' True)) [''w'', ''d'', ''x'']
             = stat exampleFs [''w'', ''d'', ''x'']"
    using t2 R root acc np by blast
  show ?thesis using v 1 2 tl 3 4 5 by (intro conjI)
qed

text \<open>
  The claim as written fails on a POSIX host, where the name returned for \<^verbatim>\<open>a:b:c\<close> is
  \<^verbatim>\<open>b:c\<close>: it has a colon as its second byte, which is what the sanitizer itself takes
  for a drive-letter prefix.
\<close>

theorem second_drive_prefix_counterexample:
  "sanitizeExtractPath Posix ''a:b:c'' = ''b:c''
   \<and> 2 \<le> length (sanitizeExtractPath Posix ''a:b:c'')
   \<and> sanitizeExtractPath Posix ''a:b:c'' ! 1 = CHR '':''"
  by code_simp

end
